theory Spec2Isabelle
  imports Main "HOL-Library.Product_Lexorder" "HOL-Library.Multiset"
begin

section \<open>Data model of Traversal.cpp\<close>

text \<open>
  The C++ type \<^verbatim>\<open>int\<close> has 32 bits. It is modelled by \<^typ>\<open>int\<close>, and the one addition
  that an input of a few edges can drive out of range, \<^verbatim>\<open>mst_cost += weight\<close>, is
  modelled with its overflow: signed overflow is undefined behaviour in C++, and the
  compiled program wraps around in two's complement, which is what \<open>int_wrap\<close> does.
  What is said of the cost is said for the runs in which no addition overflows. The
  other arithmetic of the program is \<^verbatim>\<open>index++\<close>, \<^verbatim>\<open>num_of_traversed_edges++\<close> and \<^verbatim>\<open>++idx\<close>,
  which count edges and nodes and leave the range only after some \<open>2^31\<close> insertions,
  and \<^verbatim>\<open>num_of_nodes - 1\<close>; they are not given an overflow. Console output is not
  modelled, except the report of a refused insertion.
\<close>

definition in_int_range :: "int \<Rightarrow> bool" where
  "in_int_range x = (- 2147483648 \<le> x \<and> x \<le> 2147483647)"

definition int_wrap :: "int \<Rightarrow> int" where
  "int_wrap x = (x + 2147483648) mod 4294967296 - 2147483648"

record Edge =
  weight :: int
  source :: int
  destination :: int

text \<open>The constructor \<^verbatim>\<open>Edge(s, d, w)\<close>; its default arguments are all \<open>-1\<close>.\<close>

definition new_Edge :: "int \<Rightarrow> int \<Rightarrow> int \<Rightarrow> Edge" where
  "new_Edge s d w = \<lparr>weight = w, source = s, destination = d\<rparr>"

text \<open>\<^verbatim>\<open>Edge::operator==\<close>: all three fields agree.\<close>

definition Edge_eq :: "Edge \<Rightarrow> Edge \<Rightarrow> bool" where
  "Edge_eq a e = (source a = source e \<and> destination a = destination e \<and> weight a = weight e)"

text \<open>
  A \<^verbatim>\<open>std::set\<close> is an ordered container of unique keys: a strictly ascending list.
  \<^verbatim>\<open>insert\<close> leaves the set alone when the key is present. Pairs are ordered
  lexicographically, as \<^verbatim>\<open>std::pair\<close>'s \<^verbatim>\<open>operator<\<close> orders them.
\<close>

definition set_insert :: "'a::linorder \<Rightarrow> 'a list \<Rightarrow> 'a list" where
  "set_insert x xs = (if x \<in> set xs then xs else insort x xs)"

record PathFinder =
  all_weights :: "(int \<times> int) list"
  all_edges :: "Edge list"
  traversed_edges :: "(int \<times> int) list"
  index :: int
  num_of_nodes :: int
  num_of_traversed_edges :: int
  traversed_nodes :: "int list"

text \<open>
  The constructor initialises \<^verbatim>\<open>index\<close> and \<^verbatim>\<open>num_of_traversed_edges\<close> to 0 and leaves
  \<^verbatim>\<open>num_of_nodes\<close> uninitialised; \<^verbatim>\<open>parse_input\<close> sets it before it is read.
\<close>

definition new_PathFinder :: PathFinder where
  "new_PathFinder = \<lparr>all_weights = [], all_edges = [], traversed_edges = [], index = 0,
     num_of_nodes = 0, num_of_traversed_edges = 0, traversed_nodes = []\<rparr>"

text \<open>
  What can go wrong in \<^verbatim>\<open>traverse\<close>: control reaches the end of the function, which has
  no return statement there; \<^verbatim>\<open>all_edges[i]\<close> is read out of range; \<^verbatim>\<open>erase\<close> is handed
  the end iterator. All three are undefined behaviour in C++.
\<close>

datatype error = NoReturnValue | IndexOutOfRange | EraseAtEnd

section \<open>Loading and sorting\<close>

text \<open>
  \<^verbatim>\<open>insert_new_edge\<close>. The Boolean is the report printed when the insertion is refused.
\<close>

definition insert_new_edge :: "int \<Rightarrow> int \<Rightarrow> int \<Rightarrow> PathFinder \<Rightarrow> bool \<times> PathFinder" where
  "insert_new_edge s d w pf =
     (if list_ex (\<lambda>e. Edge_eq e (new_Edge d s w)) (all_edges pf) then (True, pf)
      else (False, pf\<lparr>all_edges := all_edges pf @ [new_Edge s d w],
                       all_weights := all_weights pf @ [(w, index pf)],
                       index := index pf + 1\<rparr>))"

text \<open>
  \<^verbatim>\<open>parse_input\<close> on a file that holds the node count \<open>nodes\<close> and then the triples:
  one \<^verbatim>\<open>insert_new_edge\<close> for each triple, in the file's order.
\<close>

definition parse_input :: "int \<Rightarrow> (int \<times> int \<times> int) list \<Rightarrow> PathFinder \<Rightarrow> PathFinder" where
  "parse_input nodes triples pf =
     foldl (\<lambda>p (s, d, w). snd (insert_new_edge s d w p)) (pf\<lparr>num_of_nodes := nodes\<rparr>) triples"

text \<open>
  \<^verbatim>\<open>sort_edges\<close>: \<^verbatim>\<open>std::sort\<close> with the pairs' \<^verbatim>\<open>operator<\<close>. Equal pairs cannot be told
  apart, so the ascending arrangement is the only possible outcome.
\<close>

definition sort_edges :: "PathFinder \<Rightarrow> PathFinder" where
  "sort_edges pf = pf\<lparr>all_weights := sort (all_weights pf)\<rparr>"

section \<open>Cycle check and augmentation\<close>

definition is_edge_traversed :: "PathFinder \<Rightarrow> int \<Rightarrow> int \<Rightarrow> bool" where
  "is_edge_traversed pf s d = ((s, d) \<in> set (traversed_edges pf))"

text \<open>\<^verbatim>\<open>check_cycle\<close>: two loops over \<open>idx = 0, ..., num_of_nodes - 1\<close> that raise one flag.\<close>

definition check_cycle :: "PathFinder \<Rightarrow> int \<Rightarrow> int \<Rightarrow> bool" where
  "check_cycle pf s d =
     (let is_found = fold (\<lambda>idx found.
            if is_edge_traversed pf s idx \<and> is_edge_traversed pf d idx then True else found)
            [0 .. num_of_nodes pf - 1] False
      in fold (\<lambda>idx found.
            if is_edge_traversed pf idx s \<and> is_edge_traversed pf idx d then True else found)
            [0 .. num_of_nodes pf - 1] is_found)"

text \<open>The body of the loop of \<^verbatim>\<open>augment_components\<close> at the element \<open>edge\<close>.\<close>

definition augment_step :: "int \<Rightarrow> int \<Rightarrow> int \<times> int \<Rightarrow> PathFinder \<Rightarrow> PathFinder" where
  "augment_step s d edge pf =
     (let pf1 = (if snd edge = s \<and> fst edge \<noteq> d
                 then pf\<lparr>traversed_nodes := set_insert d (set_insert s (traversed_nodes pf)),
                          traversed_edges := set_insert (fst edge, d) (traversed_edges pf)\<rparr>
                 else pf)
      in if fst edge = d \<and> snd edge \<noteq> s
         then pf1\<lparr>traversed_nodes := set_insert d (set_insert s (traversed_nodes pf1)),
                   traversed_edges := set_insert (s, snd edge) (traversed_edges pf1)\<rparr>
         else pf1)"

text \<open>
  The loop of \<^verbatim>\<open>augment_components\<close> walks the set \<^verbatim>\<open>traversed_edges\<close> in ascending
  order while its body inserts into that same set. An insertion leaves the iterator
  valid, and the increment moves to the least element, of the set as it is then, above
  the current one: a pair inserted above the current position is visited later in the
  same loop, a pair inserted below it is not. \<open>augment_from\<close> is the loop from the
  element \<open>edge\<close> on.
\<close>

definition universe :: "int \<Rightarrow> int \<Rightarrow> int \<times> int \<Rightarrow> PathFinder \<Rightarrow> int set" where
  "universe s d edge pf =
     {s, d, fst edge, snd edge} \<union> fst ` set (traversed_edges pf) \<union> snd ` set (traversed_edges pf)"

definition pending :: "int \<Rightarrow> int \<Rightarrow> int \<times> int \<Rightarrow> PathFinder \<Rightarrow> (int \<times> int) set" where
  "pending s d edge pf = {p \<in> universe s d edge pf \<times> universe s d edge pf. edge < p}"

lemma set_set_insert [simp]: "set (set_insert x xs) = insert x (set xs)"
  by (auto simp: set_insert_def set_insort_key)

lemma augment_step_edges:
  "set (traversed_edges (augment_step s d edge pf)) =
     set (traversed_edges pf) \<union> {p. p = (fst edge, d) \<and> snd edge = s \<and> fst edge \<noteq> d}
       \<union> {p. p = (s, snd edge) \<and> fst edge = d \<and> snd edge \<noteq> s}"
  by (auto simp: augment_step_def Let_def)

lemma finite_pending: "finite (pending s d edge pf)"
  by (simp add: pending_def universe_def)

lemma universe_step:
  assumes "nxt \<in> set (traversed_edges (augment_step s d edge pf))"
  shows "universe s d nxt (augment_step s d edge pf) \<subseteq> universe s d edge pf"
  using assms unfolding universe_def augment_step_edges by force

lemma pending_step:
  assumes "find (\<lambda>p. edge < p) (traversed_edges (augment_step s d edge pf)) = Some nxt"
  shows "pending s d nxt (augment_step s d edge pf) \<subset> pending s d edge pf"
proof -
  from assms have in_set: "nxt \<in> set (traversed_edges (augment_step s d edge pf))"
    and lt: "edge < nxt"
    by (auto simp: find_Some_iff)
  have sub: "universe s d nxt (augment_step s d edge pf) \<subseteq> universe s d edge pf"
    by (rule universe_step [OF in_set])
  have "nxt \<in> universe s d nxt (augment_step s d edge pf)
                 \<times> universe s d nxt (augment_step s d edge pf)"
    by (cases nxt) (simp add: universe_def)
  with sub lt have "nxt \<in> pending s d edge pf"
    by (auto simp: pending_def)
  moreover have "nxt \<notin> pending s d nxt (augment_step s d edge pf)"
    by (simp add: pending_def)
  moreover have "pending s d nxt (augment_step s d edge pf) \<subseteq> pending s d edge pf"
    using sub lt by (auto simp: pending_def)
  ultimately show ?thesis by blast
qed

function augment_from :: "int \<Rightarrow> int \<Rightarrow> int \<times> int \<Rightarrow> PathFinder \<Rightarrow> PathFinder" where
  "augment_from s d edge pf =
     (let pf' = augment_step s d edge pf
      in case find (\<lambda>p. edge < p) (traversed_edges pf') of
           None \<Rightarrow> pf'
         | Some nxt \<Rightarrow> augment_from s d nxt pf')"
  by pat_completeness auto
termination
proof (relation "measure (\<lambda>(s, d, edge, pf). card (pending s d edge pf))")
  show "wf (measure (\<lambda>(s, d, edge, pf). card (pending s d edge pf)))" by simp
next
  fix s d :: int and edge :: "int \<times> int" and pf pf' :: PathFinder and nxt
  assume "pf' = augment_step s d edge pf"
    and "find (\<lambda>p. edge < p) (traversed_edges pf') = Some nxt"
  then have "pending s d nxt pf' \<subset> pending s d edge pf"
    using pending_step by simp
  then have "card (pending s d nxt pf') < card (pending s d edge pf)"
    by (rule psubset_card_mono [OF finite_pending])
  then show "((s, d, nxt, pf'), (s, d, edge, pf))
               \<in> measure (\<lambda>(s, d, edge, pf). card (pending s d edge pf))"
    by simp
qed

declare augment_from.simps [simp del]

text \<open>\<^verbatim>\<open>augment_components\<close>: the loop from \<^verbatim>\<open>begin()\<close>, the least element.\<close>

definition augment_components :: "int \<Rightarrow> int \<Rightarrow> PathFinder \<Rightarrow> PathFinder" where
  "augment_components s d pf =
     (case traversed_edges pf of [] \<Rightarrow> pf | edge # _ \<Rightarrow> augment_from s d edge pf)"

section \<open>Selection\<close>

text \<open>
  \<^verbatim>\<open>std::remove(first, last, value)\<close> as the standard library runs it: find the first
  element equal to \<open>value\<close>, then move every later element that differs from \<open>value\<close>
  down over it. \<^verbatim>\<open>traverse\<close> passes the loop variable \<^verbatim>\<open>item\<close>, a reference to the
  element at \<open>pos\<close>, so \<open>value\<close> is read from the vector anew at every comparison,
  after the moves made so far. \<open>remove_loop\<close> returns the new logical end and the vector.
\<close>

function remove_loop :: "nat \<Rightarrow> nat \<Rightarrow> nat \<Rightarrow> 'a list \<Rightarrow> nat \<times> 'a list" where
  "remove_loop pos result first xs =
     (if first < length xs
      then (if xs ! first \<noteq> xs ! pos
            then remove_loop pos (Suc result) (Suc first) (xs[result := xs ! first])
            else remove_loop pos result (Suc first) xs)
      else (result, xs))"
  by pat_completeness auto
termination
  by (relation "measure (\<lambda>(pos, result, first, xs). length xs - first)") auto

declare remove_loop.simps [simp del]

definition std_remove :: "'a list \<Rightarrow> nat \<Rightarrow> nat \<times> 'a list" where
  "std_remove xs pos =
     (let first = length (takeWhile (\<lambda>x. x \<noteq> xs ! pos) xs)
      in if first = length xs then (first, xs) else remove_loop pos first (Suc first) xs)"

text \<open>\<^verbatim>\<open>erase(it)\<close> removes the one element at \<open>it\<close>; the end iterator is not allowed.\<close>

definition erase_at :: "'a list \<Rightarrow> nat \<Rightarrow> 'a list option" where
  "erase_at xs r = (if r < length xs then Some (take r xs @ drop (Suc r) xs) else None)"

definition erase_remove :: "'a list \<Rightarrow> nat \<Rightarrow> 'a list option" where
  "erase_remove xs pos = (case std_remove xs pos of (r, ys) \<Rightarrow> erase_at ys r)"

text \<open>
  \<^verbatim>\<open>traverse\<close>. The result \<open>None\<close> is \<^verbatim>\<open>nullptr\<close>; \<open>Some e\<close> is a pointer to an edge
  with the value \<open>e\<close>: the accepted edge, or the fresh \<^verbatim>\<open>Edge(-1,-1,-1)\<close> for a candidate
  that would close a cycle. \<open>traverse_items pf pos items\<close> is the range-for loop with
  \<open>items\<close> the entries from position \<open>pos\<close> on; the loop starts at the first entry of
  \<^verbatim>\<open>all_weights\<close> in every call.
\<close>

fun traverse_items ::
  "PathFinder \<Rightarrow> nat \<Rightarrow> (int \<times> int) list \<Rightarrow> error + (Edge option \<times> PathFinder)" where
  "traverse_items pf pos [] = Inl NoReturnValue"
| "traverse_items pf pos (item # rest) =
     (if snd item < 0 \<or> int (length (all_edges pf)) \<le> snd item then Inl IndexOutOfRange
      else
        let source_node = source (all_edges pf ! nat (snd item));
            destination_node = destination (all_edges pf ! nat (snd item))
        in if num_of_traversed_edges pf = num_of_nodes pf - 1 then Inr (None, pf)
           else if is_edge_traversed pf source_node destination_node
           then traverse_items pf (Suc pos) rest
           else if check_cycle pf source_node destination_node
           then (case erase_remove (all_weights pf) pos of
                   None \<Rightarrow> Inl EraseAtEnd
                 | Some ws \<Rightarrow> Inr (Some (new_Edge (- 1) (- 1) (- 1)), pf\<lparr>all_weights := ws\<rparr>))
           else
             let pf1 = pf\<lparr>traversed_nodes :=
                            set_insert destination_node (set_insert source_node (traversed_nodes pf)),
                          traversed_edges :=
                            set_insert (source_node, destination_node) (traversed_edges pf),
                          num_of_traversed_edges := num_of_traversed_edges pf + 1\<rparr>;
                 pf2 = augment_components source_node destination_node pf1
             in Inr (Some (all_edges pf2 ! nat (snd item)), pf2))"

definition traverse :: "PathFinder \<Rightarrow> error + (Edge option \<times> PathFinder)" where
  "traverse pf = traverse_items pf 0 (all_weights pf)"

text \<open>
  \<^verbatim>\<open>PathFinder::print\<close>: for each entry of the weight index, a line with the index and
  the three fields of \<^verbatim>\<open>all_edges[item.second]\<close>.
\<close>

fun print_items :: "PathFinder \<Rightarrow> (int \<times> int) list \<Rightarrow> error + (int \<times> int \<times> int \<times> int) list" where
  "print_items pf [] = Inr []"
| "print_items pf (item # rest) =
     (if snd item < 0 \<or> int (length (all_edges pf)) \<le> snd item then Inl IndexOutOfRange
      else case print_items pf rest of
             Inl err \<Rightarrow> Inl err
           | Inr lines \<Rightarrow>
               Inr ((snd item, source (all_edges pf ! nat (snd item)),
                     destination (all_edges pf ! nat (snd item)),
                     weight (all_edges pf ! nat (snd item))) # lines))"

definition print :: "PathFinder \<Rightarrow> error + (int \<times> int \<times> int \<times> int) list" where
  "print pf = print_items pf (all_weights pf)"

text \<open>The state after \<open>k\<close> calls of \<^verbatim>\<open>traverse\<close>, whatever they return.\<close>

fun traverse_n :: "nat \<Rightarrow> PathFinder \<Rightarrow> error + PathFinder" where
  "traverse_n 0 pf = Inr pf"
| "traverse_n (Suc k) pf =
     (case traverse pf of Inl err \<Rightarrow> Inl err | Inr (r, pf') \<Rightarrow> traverse_n k pf')"

section \<open>The spanning tree\<close>

record SpanningTree =
  mst_cost :: int
  tree_edges :: "Edge list"

text \<open>
  \<open>tree_edges\<close> is the member \<^verbatim>\<open>SpanningTree::traversed_edges\<close>, renamed apart from
  \<^verbatim>\<open>PathFinder::traversed_edges\<close>.
\<close>

definition new_SpanningTree :: SpanningTree where
  "new_SpanningTree = \<lparr>mst_cost = 0, tree_edges = []\<rparr>"

text \<open>
  \<^verbatim>\<open>add_edge\<close>: \<^verbatim>\<open>push_back\<close>, then \<^verbatim>\<open>mst_cost += weight\<close> in 32-bit arithmetic.
\<close>

definition add_edge :: "Edge \<Rightarrow> SpanningTree \<Rightarrow> SpanningTree" where
  "add_edge edge mst = mst\<lparr>tree_edges := tree_edges mst @ [edge],
                            mst_cost := int_wrap (mst_cost mst + weight edge)\<rparr>"

text \<open>The test of \<^verbatim>\<open>main\<close> for the edge that stands for a refused candidate.\<close>

definition is_sentinel :: "Edge \<Rightarrow> bool" where
  "is_sentinel e = (destination e = - 1 \<and> source e = - 1 \<and> weight e = - 1)"

section \<open>The container operations\<close>

lemma remove_loop_bounds:
  "remove_loop pos r f xs = (r', ys) \<Longrightarrow> r < f \<Longrightarrow> f \<le> length xs \<Longrightarrow>
     r' < length xs \<and> length ys = length xs"
proof (induction pos r f xs arbitrary: r' ys rule: remove_loop.induct)
  case (1 pos result first xs)
  show ?case
  proof (cases "first < length xs")
    case False
    with "1.prems" show ?thesis by (simp add: remove_loop.simps [of pos result first xs])
  next
    case True
    show ?thesis
    proof (cases "xs ! first \<noteq> xs ! pos")
      case neq: True
      from "1.prems" True neq
      have "remove_loop pos (Suc result) (Suc first) (xs[result := xs ! first]) = (r', ys)"
        by (simp add: remove_loop.simps [of pos result first xs])
      from "1.IH"(1) [OF True neq this] "1.prems" True show ?thesis by simp
    next
      case eq: False
      from "1.prems" True eq
      have "remove_loop pos result (Suc first) xs = (r', ys)"
        by (simp add: remove_loop.simps [of pos result first xs])
      from "1.IH"(2) [OF True eq this] "1.prems" True show ?thesis by simp
    qed
  qed
qed

lemma takeWhile_neq_le: "pos < length xs \<Longrightarrow> length (takeWhile (\<lambda>x. x \<noteq> xs ! pos) xs) \<le> pos"
  by (metis (mono_tags, lifting) leI nth_length_takeWhile takeWhile_nth length_takeWhile_le nth_mem set_takeWhileD)

lemma erase_remove_length:
  assumes "pos < length xs"
  shows "\<exists>ys. erase_remove xs pos = Some ys \<and> Suc (length ys) = length xs"
proof -
  let ?f = "length (takeWhile (\<lambda>x. x \<noteq> xs ! pos) xs)"
  have f: "?f < length xs" using takeWhile_neq_le [OF assms] assms by simp
  obtain r ys where rl: "remove_loop pos ?f (Suc ?f) xs = (r, ys)" by fastforce
  from remove_loop_bounds [OF rl] f have "r < length xs" "length ys = length xs" by simp_all
  with rl f show ?thesis
    by (simp add: erase_remove_def std_remove_def Let_def erase_at_def)
qed

lemma takeWhile_distinct_pos:
  assumes "distinct xs" "pos < length xs"
  shows "length (takeWhile (\<lambda>x. x \<noteq> xs ! pos) xs) = pos"
proof -
  let ?f = "length (takeWhile (\<lambda>x. x \<noteq> xs ! pos) xs)"
  have le: "?f \<le> pos" by (rule takeWhile_neq_le [OF assms(2)])
  then have lt: "?f < length xs" using assms(2) by simp
  have "\<not> (xs ! ?f \<noteq> xs ! pos)" by (rule nth_length_takeWhile [OF lt])
  then have "xs ! ?f = xs ! pos" by simp
  with assms lt show ?thesis by (simp add: nth_eq_iff_index_eq)
qed

lemma remove_loop_distinct:
  assumes d: "distinct xs0" and pos: "pos \<le> r"
    and len: "length xs = length xs0" and r: "r < length xs0"
    and low: "\<forall>i<pos. xs ! i = xs0 ! i"
    and mid: "\<forall>i. pos \<le> i \<and> i < r \<longrightarrow> xs ! i = xs0 ! Suc i"
    and high: "\<forall>i. r \<le> i \<and> i < length xs0 \<longrightarrow> xs ! i = xs0 ! i"
  shows "\<exists>ys. remove_loop pos r (Suc r) xs = (length xs0 - 1, ys) \<and> length ys = length xs0
           \<and> (\<forall>i<pos. ys ! i = xs0 ! i)
           \<and> (\<forall>i. pos \<le> i \<and> i < length xs0 - 1 \<longrightarrow> ys ! i = xs0 ! Suc i)"
  using pos len r low mid high
proof (induction "length xs0 - Suc r" arbitrary: r xs)
  case 0
  then have e: "Suc r = length xs0" by simp
  have "\<not> Suc r < length xs" using e "0.prems"(2) by simp
  then have "remove_loop pos r (Suc r) xs = (r, xs)"
    by (subst remove_loop.simps) simp
  then have "remove_loop pos r (Suc r) xs = (length xs0 - 1, xs)"
    using e by (metis diff_Suc_1)
  moreover have "\<forall>i. pos \<le> i \<and> i < length xs0 - 1 \<longrightarrow> xs ! i = xs0 ! Suc i"
    using "0.prems"(5) e by auto
  ultimately show ?case using "0.prems" by simp
next
  case (Suc n)
  then have lt: "Suc r < length xs0" by simp
  have at_first: "xs ! Suc r = xs0 ! Suc r" using Suc.prems lt by simp
  have at_pos: "xs ! pos = (if pos = r then xs0 ! pos else xs0 ! Suc pos)"
    using Suc.prems lt by auto
  have neq: "xs ! Suc r \<noteq> xs ! pos"
    using d lt Suc.prems(1) by (auto simp: at_first at_pos nth_eq_iff_index_eq)
  let ?xs = "xs[r := xs ! Suc r]"
  have step: "remove_loop pos r (Suc r) xs = remove_loop pos (Suc r) (Suc (Suc r)) ?xs"
    using neq lt Suc.prems(2) by (simp add: remove_loop.simps [of pos r "Suc r" xs])
  have "\<exists>ys. remove_loop pos (Suc r) (Suc (Suc r)) ?xs = (length xs0 - 1, ys)
           \<and> length ys = length xs0 \<and> (\<forall>i<pos. ys ! i = xs0 ! i)
           \<and> (\<forall>i. pos \<le> i \<and> i < length xs0 - 1 \<longrightarrow> ys ! i = xs0 ! Suc i)"
  proof (rule Suc.hyps(1))
    show "n = length xs0 - Suc (Suc r)" using Suc.hyps(2) by simp
    show "pos \<le> Suc r" using Suc.prems(1) by simp
    show "length ?xs = length xs0" using Suc.prems(2) by simp
    show "Suc r < length xs0" by (rule lt)
    show "\<forall>i<pos. ?xs ! i = xs0 ! i" using Suc.prems by simp
    show "\<forall>i. pos \<le> i \<and> i < Suc r \<longrightarrow> ?xs ! i = xs0 ! Suc i"
      using Suc.prems at_first by (auto simp: nth_list_update less_Suc_eq)
    show "\<forall>i. Suc r \<le> i \<and> i < length xs0 \<longrightarrow> ?xs ! i = xs0 ! i"
      using Suc.prems by simp
  qed
  with step show ?case by simp
qed

lemma erase_remove_distinct:
  assumes "distinct xs" "pos < length xs"
  shows "erase_remove xs pos = Some (take pos xs @ drop (Suc pos) xs)"
proof -
  have f: "length (takeWhile (\<lambda>x. x \<noteq> xs ! pos) xs) = pos"
    by (rule takeWhile_distinct_pos [OF assms])
  have "\<exists>ys. remove_loop pos pos (Suc pos) xs = (length xs - 1, ys) \<and> length ys = length xs
           \<and> (\<forall>i<pos. ys ! i = xs ! i)
           \<and> (\<forall>i. pos \<le> i \<and> i < length xs - 1 \<longrightarrow> ys ! i = xs ! Suc i)"
    by (rule remove_loop_distinct) (use assms in auto)
  then obtain ys where rl: "remove_loop pos pos (Suc pos) xs = (length xs - 1, ys)"
    and len: "length ys = length xs"
    and low: "\<forall>i<pos. ys ! i = xs ! i"
    and mid: "\<forall>i. pos \<le> i \<and> i < length xs - 1 \<longrightarrow> ys ! i = xs ! Suc i"
    by blast
  have "take (length xs - 1) ys = take pos xs @ drop (Suc pos) xs"
  proof (rule nth_equalityI)
    show "length (take (length xs - 1) ys) = length (take pos xs @ drop (Suc pos) xs)"
      using assms(2) len by simp
  next
    fix i assume "i < length (take (length xs - 1) ys)"
    then have i: "i < length xs - 1" using len by simp
    show "take (length xs - 1) ys ! i = (take pos xs @ drop (Suc pos) xs) ! i"
    proof (cases "i < pos")
      case True
      with i low assms(2) show ?thesis by (simp add: nth_append)
    next
      case False
      with i mid assms(2) show ?thesis by (simp add: nth_append min_def)
    qed
  qed
  moreover have "drop (Suc (length xs - 1)) ys = []" using len assms(2) by simp
  ultimately show ?thesis
    using rl f len assms(2)
    by (simp add: erase_remove_def std_remove_def Let_def erase_at_def)
qed

lemma augment_step_frame:
  "all_weights (augment_step s d edge pf) = all_weights pf"
  "all_edges (augment_step s d edge pf) = all_edges pf"
  "index (augment_step s d edge pf) = index pf"
  "num_of_nodes (augment_step s d edge pf) = num_of_nodes pf"
  "num_of_traversed_edges (augment_step s d edge pf) = num_of_traversed_edges pf"
  by (simp_all add: augment_step_def Let_def)

lemma augment_from_frame:
  "all_weights (augment_from s d edge pf) = all_weights pf \<and>
   all_edges (augment_from s d edge pf) = all_edges pf \<and>
   index (augment_from s d edge pf) = index pf \<and>
   num_of_nodes (augment_from s d edge pf) = num_of_nodes pf \<and>
   num_of_traversed_edges (augment_from s d edge pf) = num_of_traversed_edges pf"
proof (induction s d edge pf rule: augment_from.induct)
  case (1 s d edge pf)
  show ?case
  proof (cases "find (\<lambda>p. edge < p) (traversed_edges (augment_step s d edge pf))")
    case None
    then show ?thesis
      by (subst (1 2 3 4 5) augment_from.simps) (simp add: augment_step_frame)
  next
    case (Some nxt)
    with "1.IH" [OF refl Some] show ?thesis
      by (subst (1 2 3 4 5) augment_from.simps) (simp add: augment_step_frame)
  qed
qed

lemma augment_from_mono:
  "set (traversed_edges pf) \<subseteq> set (traversed_edges (augment_from s d edge pf))"
proof (induction s d edge pf rule: augment_from.induct)
  case (1 s d edge pf)
  have step: "set (traversed_edges pf) \<subseteq> set (traversed_edges (augment_step s d edge pf))"
    by (auto simp: augment_step_edges)
  show ?case
  proof (cases "find (\<lambda>p. edge < p) (traversed_edges (augment_step s d edge pf))")
    case None
    with step show ?thesis by (subst augment_from.simps) simp
  next
    case (Some nxt)
    with "1.IH" [OF refl Some] step show ?thesis
      by (subst augment_from.simps) auto
  qed
qed

lemma augment_components_frame:
  "all_weights (augment_components s d pf) = all_weights pf"
  "all_edges (augment_components s d pf) = all_edges pf"
  "index (augment_components s d pf) = index pf"
  "num_of_nodes (augment_components s d pf) = num_of_nodes pf"
  "num_of_traversed_edges (augment_components s d pf) = num_of_traversed_edges pf"
  by (simp_all add: augment_components_def augment_from_frame split: list.split)

lemma augment_components_mono:
  "set (traversed_edges pf) \<subseteq> set (traversed_edges (augment_components s d pf))"
proof (cases "traversed_edges pf")
  case Nil
  then show ?thesis by (simp add: augment_components_def)
next
  case (Cons edge rest)
  then show ?thesis using augment_from_mono [of pf s d edge] by (simp add: augment_components_def)
qed

section \<open>How a call of \<^verbatim>\<open>traverse\<close> ends\<close>

text \<open>The pair of the edge that a weight entry names, when the index is in range.\<close>

definition entry_ok :: "PathFinder \<Rightarrow> int \<times> int \<Rightarrow> bool" where
  "entry_ok pf item = (0 \<le> snd item \<and> snd item < int (length (all_edges pf)))"

definition entry_pair :: "PathFinder \<Rightarrow> int \<times> int \<Rightarrow> int \<times> int" where
  "entry_pair pf item =
     (source (all_edges pf ! nat (snd item)), destination (all_edges pf ! nat (snd item)))"

definition open_entries :: "PathFinder \<Rightarrow> nat" where
  "open_entries pf =
     length (filter (\<lambda>item. entry_ok pf item \<and> entry_pair pf item \<notin> set (traversed_edges pf))
               (all_weights pf))"

text \<open>
  An entry that the loop of \<^verbatim>\<open>traverse\<close> passes over with \<^verbatim>\<open>continue\<close>, and what the loop
  does at the first entry it does not pass over.
\<close>

definition skipped :: "PathFinder \<Rightarrow> int \<times> int \<Rightarrow> bool" where
  "skipped pf item = (entry_ok pf item \<and> num_of_traversed_edges pf \<noteq> num_of_nodes pf - 1
     \<and> entry_pair pf item \<in> set (traversed_edges pf))"

text \<open>The state changes that \<^verbatim>\<open>traverse\<close> makes when it accepts the pair \<open>(s, d)\<close>.\<close>

definition accept_pair :: "PathFinder \<Rightarrow> int \<Rightarrow> int \<Rightarrow> PathFinder" where
  "accept_pair pf s d =
     augment_components s d
       (pf\<lparr>traversed_nodes := set_insert d (set_insert s (traversed_nodes pf)),
           traversed_edges := set_insert (s, d) (traversed_edges pf),
           num_of_traversed_edges := num_of_traversed_edges pf + 1\<rparr>)"

definition stop_at :: "PathFinder \<Rightarrow> nat \<Rightarrow> int \<times> int \<Rightarrow> error + (Edge option \<times> PathFinder)" where
  "stop_at pf pos item =
     (if \<not> entry_ok pf item then Inl IndexOutOfRange
      else if num_of_traversed_edges pf = num_of_nodes pf - 1 then Inr (None, pf)
      else if check_cycle pf (fst (entry_pair pf item)) (snd (entry_pair pf item))
      then (case erase_remove (all_weights pf) pos of
              None \<Rightarrow> Inl EraseAtEnd
            | Some ws \<Rightarrow> Inr (Some (new_Edge (- 1) (- 1) (- 1)), pf\<lparr>all_weights := ws\<rparr>))
      else Inr (Some (all_edges pf ! nat (snd item)),
                accept_pair pf (fst (entry_pair pf item)) (snd (entry_pair pf item))))"

lemma traverse_items_Cons:
  "traverse_items pf pos (item # rest) =
     (if skipped pf item then traverse_items pf (Suc pos) rest else stop_at pf pos item)"
  by (auto simp: skipped_def stop_at_def accept_pair_def entry_ok_def entry_pair_def
        is_edge_traversed_def Let_def augment_components_frame)

lemma traverse_items_skip:
  "\<forall>item\<in>set pre. skipped pf item \<Longrightarrow>
     traverse_items pf pos (pre @ items) = traverse_items pf (pos + length pre) items"
  by (induction pre arbitrary: pos) (simp_all add: traverse_items_Cons del: traverse_items.simps(2))

lemma traverse_eq:
  "traverse pf =
     (case dropWhile (skipped pf) (all_weights pf) of
        [] \<Rightarrow> Inl NoReturnValue
      | item # _ \<Rightarrow> stop_at pf (length (takeWhile (skipped pf) (all_weights pf))) item)"
proof -
  let ?pre = "takeWhile (skipped pf) (all_weights pf)"
  let ?post = "dropWhile (skipped pf) (all_weights pf)"
  have "traverse pf = traverse_items pf 0 (?pre @ ?post)"
    by (simp add: traverse_def)
  also have "\<dots> = traverse_items pf (length ?pre) ?post"
    using traverse_items_skip [of ?pre pf 0 ?post] by (auto dest: set_takeWhileD)
  also have "\<dots> = (case ?post of [] \<Rightarrow> Inl NoReturnValue
                    | item # _ \<Rightarrow> stop_at pf (length ?pre) item)"
  proof (cases ?post)
    case Nil
    show ?thesis unfolding Nil by simp
  next
    case (Cons item rest)
    then have "\<not> skipped pf item" by (metis hd_dropWhile list.distinct(1) list.sel(1))
    with Cons show ?thesis by (simp add: traverse_items_Cons del: traverse_items.simps(2))
  qed
  finally show ?thesis .
qed

lemma filter_length_le:
  "\<forall>x\<in>set xs. Q x \<longrightarrow> P x \<Longrightarrow> length (filter Q xs) \<le> length (filter P xs)"
  by (induction xs) auto

lemma filter_length_less:
  "\<forall>x\<in>set xs. Q x \<longrightarrow> P x \<Longrightarrow> x \<in> set xs \<Longrightarrow> P x \<Longrightarrow> \<not> Q x \<Longrightarrow>
     length (filter Q xs) < length (filter P xs)"
proof (induction xs)
  case Nil
  then show ?case by simp
next
  case (Cons y ys)
  have le: "length (filter Q ys) \<le> length (filter P ys)"
    using Cons.prems(1) by (intro filter_length_le) simp
  show ?case
  proof (cases "x = y")
    case True
    with Cons.prems le show ?thesis by simp
  next
    case False
    with Cons have "length (filter Q ys) < length (filter P ys)" by simp
    with Cons.prems(1) show ?thesis by auto
  qed
qed

lemma dropWhile_Cons_nth:
  assumes "dropWhile P xs = x # rest"
  shows "length (takeWhile P xs) < length xs \<and> xs ! length (takeWhile P xs) = x \<and> \<not> P x"
proof -
  have "xs = takeWhile P xs @ x # rest" using assms by (metis takeWhile_dropWhile_id)
  then have "length (takeWhile P xs) < length xs" "xs ! length (takeWhile P xs) = x"
    by (metis length_append length_Cons less_add_Suc1 add_Suc_right, metis nth_append_length)
  moreover have "\<not> P x" using assms by (metis hd_dropWhile list.distinct(1) list.sel(1))
  ultimately show ?thesis by simp
qed

lemma traverse_Some_decreases:
  assumes "traverse pf = Inr (Some e, pf')"
  shows "length (all_weights pf') < length (all_weights pf)
       \<or> (length (all_weights pf') = length (all_weights pf) \<and> open_entries pf' < open_entries pf)"
proof (cases "dropWhile (skipped pf) (all_weights pf)")
  case Nil
  with assms show ?thesis by (simp add: traverse_eq)
next
  case (Cons item rest)
  let ?pos = "length (takeWhile (skipped pf) (all_weights pf))"
  from dropWhile_Cons_nth [OF Cons]
  have pos: "?pos < length (all_weights pf)" and item: "all_weights pf ! ?pos = item"
    and ns: "\<not> skipped pf item" by simp_all
  from assms Cons have stop: "stop_at pf ?pos item = Inr (Some e, pf')"
    by (simp add: traverse_eq)
  then have ok: "entry_ok pf item" and cnt: "num_of_traversed_edges pf \<noteq> num_of_nodes pf - 1"
    by (auto simp: stop_at_def split: if_splits)
  with ns have fresh: "entry_pair pf item \<notin> set (traversed_edges pf)"
    by (simp add: skipped_def)
  show ?thesis
  proof (cases "check_cycle pf (fst (entry_pair pf item)) (snd (entry_pair pf item))")
    case True
    from erase_remove_length [OF pos] obtain ws
      where "erase_remove (all_weights pf) ?pos = Some ws" "Suc (length ws) = length (all_weights pf)"
      by blast
    with stop ok cnt True show ?thesis by (auto simp: stop_at_def)
  next
    case False
    let ?pf1 = "pf\<lparr>traversed_nodes :=
                      set_insert (snd (entry_pair pf item))
                        (set_insert (fst (entry_pair pf item)) (traversed_nodes pf)),
                    traversed_edges := set_insert (entry_pair pf item) (traversed_edges pf),
                    num_of_traversed_edges := num_of_traversed_edges pf + 1\<rparr>"
    from stop ok cnt False
    have pf': "pf' = augment_components (fst (entry_pair pf item)) (snd (entry_pair pf item)) ?pf1"
      by (simp add: stop_at_def accept_pair_def)
    have w: "all_weights pf' = all_weights pf" and ed: "all_edges pf' = all_edges pf"
      by (simp_all add: pf' augment_components_frame)
    have sup: "insert (entry_pair pf item) (set (traversed_edges pf)) \<subseteq> set (traversed_edges pf')"
      using augment_components_mono [of ?pf1] by (simp add: pf')
    have same: "entry_ok pf' = entry_ok pf" "entry_pair pf' = entry_pair pf"
      by (simp_all add: entry_ok_def entry_pair_def ed fun_eq_iff)
    have "open_entries pf' < open_entries pf"
      unfolding open_entries_def w same
    proof (rule filter_length_less [where x = item])
      show "\<forall>x\<in>set (all_weights pf).
              entry_ok pf x \<and> entry_pair pf x \<notin> set (traversed_edges pf') \<longrightarrow>
              entry_ok pf x \<and> entry_pair pf x \<notin> set (traversed_edges pf)"
        using sup by auto
      show "item \<in> set (all_weights pf)" using pos item by (metis nth_mem)
      show "entry_ok pf item \<and> entry_pair pf item \<notin> set (traversed_edges pf)"
        using ok fresh by simp
      show "\<not> (entry_ok pf item \<and> entry_pair pf item \<notin> set (traversed_edges pf'))"
        using sup by auto
    qed
    with w show ?thesis by simp
  qed
qed

section \<open>The program\<close>

text \<open>
  The loop of \<^verbatim>\<open>main\<close>: call \<^verbatim>\<open>traverse\<close> until it returns \<^verbatim>\<open>nullptr\<close>, adding every
  returned edge other than \<^verbatim>\<open>(-1,-1,-1)\<close> to the tree.
\<close>

function main_loop :: "PathFinder \<Rightarrow> SpanningTree \<Rightarrow> error + (PathFinder \<times> SpanningTree)" where
  "main_loop pf mst =
     (case traverse pf of
        Inl err \<Rightarrow> Inl err
      | Inr (None, pf') \<Rightarrow> Inr (pf', mst)
      | Inr (Some new_edge, pf') \<Rightarrow>
          main_loop pf' (if \<not> is_sentinel new_edge then add_edge new_edge mst else mst))"
  by pat_completeness auto
termination
proof (relation "measures [\<lambda>(pf, mst). length (all_weights pf), \<lambda>(pf, mst). open_entries pf]")
  show "wf (measures [\<lambda>(pf, mst). length (all_weights pf), \<lambda>(pf, mst). open_entries pf])"
    by simp
next
  fix pf :: PathFinder and mst :: SpanningTree and x r pf' new_edge
  assume "traverse pf = Inr x" and "(r, pf') = x" and "r = Some new_edge"
  then have "traverse pf = Inr (Some new_edge, pf')" by simp
  from traverse_Some_decreases [OF this]
  show "((pf', if \<not> is_sentinel new_edge then add_edge new_edge mst else mst), pf, mst)
          \<in> measures [\<lambda>(pf, mst). length (all_weights pf), \<lambda>(pf, mst). open_entries pf]"
    by auto
qed

declare main_loop.simps [simp del]

definition main :: "int \<Rightarrow> (int \<times> int \<times> int) list \<Rightarrow> error + (PathFinder \<times> SpanningTree)" where
  "main nodes triples =
     main_loop (sort_edges (parse_input nodes triples new_PathFinder)) new_SpanningTree"

text \<open>The loop of \<^verbatim>\<open>main\<close> cut off after \<open>k\<close> calls of \<^verbatim>\<open>traverse\<close>: the states in between.\<close>

fun main_steps :: "nat \<Rightarrow> PathFinder \<Rightarrow> SpanningTree \<Rightarrow> error + (PathFinder \<times> SpanningTree)" where
  "main_steps 0 pf mst = Inr (pf, mst)"
| "main_steps (Suc k) pf mst =
     (case traverse pf of
        Inl err \<Rightarrow> Inl err
      | Inr (None, pf') \<Rightarrow> Inr (pf', mst)
      | Inr (Some new_edge, pf') \<Rightarrow>
          main_steps k pf' (if \<not> is_sentinel new_edge then add_edge new_edge mst else mst))"

section \<open>Facts about the cycle check and the insertion\<close>

lemma fold_flag:
  "fold (\<lambda>idx found. if P idx then True else found) xs b = (b \<or> (\<exists>x\<in>set xs. P x))"
  by (induction xs arbitrary: b) auto

lemma check_cycle_iff:
  "check_cycle pf s d =
     (\<exists>k. 0 \<le> k \<and> k < num_of_nodes pf \<and>
        ((is_edge_traversed pf s k \<and> is_edge_traversed pf d k) \<or>
         (is_edge_traversed pf k s \<and> is_edge_traversed pf k d)))"
  unfolding check_cycle_def Let_def fold_flag by auto

lemma Edge_eq_iff: "Edge_eq (a :: Edge) e \<longleftrightarrow> a = e"
  by (cases a, cases e) (auto simp: Edge_eq_def)

lemma insert_rejected_iff:
  "fst (insert_new_edge s d w pf) \<longleftrightarrow> new_Edge d s w \<in> set (all_edges pf)"
  by (auto simp: insert_new_edge_def list_ex_iff Edge_eq_iff)

section \<open>What the augmentation adds\<close>

text \<open>The pairs that one run of the loop body at the element \<open>p\<close> inserts.\<close>

definition produced :: "int \<Rightarrow> int \<Rightarrow> int \<times> int \<Rightarrow> (int \<times> int) set" where
  "produced s d p =
     {q. q = (fst p, d) \<and> snd p = s \<and> fst p \<noteq> d} \<union> {q. q = (s, snd p) \<and> fst p = d \<and> snd p \<noteq> s}"

lemma augment_step_produced:
  "set (traversed_edges (augment_step s d edge pf)) = set (traversed_edges pf) \<union> produced s d edge"
  by (simp add: augment_step_edges produced_def Un_assoc)

lemma produced_again: "q \<in> produced s d p \<Longrightarrow> produced s d q \<subseteq> {q}"
  by (auto simp: produced_def)

lemma sorted_set_insert: "sorted xs \<Longrightarrow> sorted (set_insert x xs)"
  by (simp add: set_insert_def sorted_insort)

lemma distinct_set_insert: "distinct xs \<Longrightarrow> distinct (set_insert x xs)"
  by (simp add: set_insert_def distinct_insort)

lemma augment_step_sorted:
  "sorted (traversed_edges pf) \<Longrightarrow> sorted (traversed_edges (augment_step s d edge pf))"
  by (simp add: augment_step_def Let_def sorted_set_insert)

lemma augment_step_distinct:
  "distinct (traversed_edges pf) \<Longrightarrow> distinct (traversed_edges (augment_step s d edge pf))"
  by (simp add: augment_step_def Let_def distinct_set_insert)

lemma sorted_find_least:
  assumes "sorted xs" "find (\<lambda>p. c < p) xs = Some n" "p \<in> set xs" "c < p"
  shows "n \<le> p"
proof -
  from assms(2) obtain i where i: "i < length xs" "n = xs ! i" "\<forall>j<i. \<not> c < xs ! j"
    by (auto simp: find_Some_iff)
  from assms(3) obtain k where k: "k < length xs" "p = xs ! k"
    by (auto simp: in_set_conv_nth)
  with i(3) assms(4) have "i \<le> k" by (meson not_le)
  with assms(1) i k show ?thesis by (simp add: sorted_nth_mono)
qed

lemma augment_from_upper:
  assumes "set (traversed_edges pf) \<subseteq> C" "edge \<in> C" "\<forall>p\<in>C. produced s d p \<subseteq> C"
  shows "set (traversed_edges (augment_from s d edge pf)) \<subseteq> C"
  using assms
proof (induction s d edge pf rule: augment_from.induct)
  case (1 s d edge pf)
  let ?pf = "augment_step s d edge pf"
  have step: "set (traversed_edges ?pf) \<subseteq> C"
    using "1.prems" by (auto simp: augment_step_produced)
  show ?case
  proof (cases "find (\<lambda>p. edge < p) (traversed_edges ?pf)")
    case None
    with step show ?thesis by (subst augment_from.simps) simp
  next
    case (Some nxt)
    then have "nxt \<in> set (traversed_edges ?pf)" by (auto simp: find_Some_iff)
    with step have "nxt \<in> C" by auto
    from "1.IH" [OF refl Some step this "1.prems"(3)] Some show ?thesis
      by (subst augment_from.simps) simp
  qed
qed

lemma augment_from_lower:
  assumes "sorted (traversed_edges pf)" "p \<in> set (traversed_edges pf)" "edge \<le> p"
  shows "produced s d p \<subseteq> set (traversed_edges (augment_from s d edge pf))"
  using assms
proof (induction s d edge pf rule: augment_from.induct)
  case (1 s d edge pf)
  let ?pf = "augment_step s d edge pf"
  have sorted': "sorted (traversed_edges ?pf)"
    by (rule augment_step_sorted [OF "1.prems"(1)])
  have p': "p \<in> set (traversed_edges ?pf)"
    using "1.prems"(2) by (simp add: augment_step_produced)
  show ?case
  proof (cases "find (\<lambda>p. edge < p) (traversed_edges ?pf)")
    case None
    then have "\<not> edge < p" using p' by (cases p) (auto simp: find_None_iff)
    with "1.prems"(3) have "p = edge" by simp
    with None show ?thesis
      by (subst augment_from.simps) (simp add: augment_step_produced)
  next
    case (Some nxt)
    have eq: "augment_from s d edge pf = augment_from s d nxt ?pf"
      using Some by (subst augment_from.simps) simp
    show ?thesis
    proof (cases "p = edge")
      case True
      have "produced s d edge \<subseteq> set (traversed_edges ?pf)"
        by (simp add: augment_step_produced)
      also have "\<dots> \<subseteq> set (traversed_edges (augment_from s d nxt ?pf))"
        by (rule augment_from_mono)
      finally show ?thesis using True eq by simp
    next
      case False
      with "1.prems"(3) have "edge < p" by simp
      from sorted_find_least [OF sorted' Some p' this] have "nxt \<le> p" .
      from "1.IH" [OF refl Some sorted' p' this] eq show ?thesis by simp
    qed
  qed
qed

lemma augment_components_edges:
  assumes "sorted (traversed_edges pf)"
  shows "set (traversed_edges (augment_components s d pf)) =
           set (traversed_edges pf) \<union> (\<Union>p\<in>set (traversed_edges pf). produced s d p)"
proof (cases "traversed_edges pf")
  case Nil
  then show ?thesis by (simp add: augment_components_def)
next
  case (Cons edge rest)
  let ?C = "set (traversed_edges pf) \<union> (\<Union>p\<in>set (traversed_edges pf). produced s d p)"
  have ac: "augment_components s d pf = augment_from s d edge pf"
    using Cons by (simp add: augment_components_def)
  have closed: "\<forall>p\<in>?C. produced s d p \<subseteq> ?C"
    using produced_again by fastforce
  have "edge \<in> ?C" using Cons by simp
  then have upper: "set (traversed_edges (augment_from s d edge pf)) \<subseteq> ?C"
    by (intro augment_from_upper closed) simp_all
  have least: "\<forall>p\<in>set (traversed_edges pf). edge \<le> p"
    using assms Cons by auto
  have lower: "?C \<subseteq> set (traversed_edges (augment_from s d edge pf))"
    using augment_from_mono [of pf s d edge] augment_from_lower [OF assms _ least [rule_format]]
    by blast
  from upper lower have "set (traversed_edges (augment_from s d edge pf)) = ?C"
    by (rule subset_antisym)
  with ac show ?thesis by simp
qed

section \<open>The invariants of the weight index\<close>

text \<open>The entries of the weight index differ and name edges of the edge list.\<close>

definition index_ok :: "PathFinder \<Rightarrow> bool" where
  "index_ok pf = (distinct (all_weights pf) \<and> list_all (entry_ok pf) (all_weights pf))"

text \<open>What a sequence of insertions keeps: entry \<open>i\<close> is the weight of edge \<open>i\<close>, and \<open>i\<close>.\<close>

definition aligned :: "PathFinder \<Rightarrow> bool" where
  "aligned pf = (index pf = int (length (all_edges pf))
     \<and> all_weights pf = map (\<lambda>i. (weight (all_edges pf ! i), int i)) [0..<length (all_edges pf)])"

lemma aligned_new: "aligned new_PathFinder"
  by (simp add: aligned_def new_PathFinder_def)

lemma aligned_insert: "aligned pf \<Longrightarrow> aligned (snd (insert_new_edge s d w pf))"
  by (auto simp: aligned_def insert_new_edge_def new_Edge_def nth_append)

lemma aligned_foldl:
  "aligned pf \<Longrightarrow> aligned (foldl (\<lambda>p (s, d, w). snd (insert_new_edge s d w p)) pf triples)"
  by (induction triples arbitrary: pf) (auto simp: aligned_insert split: prod.splits)

lemma aligned_parse_input: "aligned (parse_input nodes triples new_PathFinder)"
proof -
  have "aligned (new_PathFinder\<lparr>num_of_nodes := nodes\<rparr>)"
    using aligned_new by (simp add: aligned_def)
  then show ?thesis unfolding parse_input_def by (rule aligned_foldl)
qed

lemma aligned_index_ok:
  assumes "aligned pf"
  shows "index_ok pf"
proof -
  let ?n = "length (all_edges pf)"
  have ws: "all_weights pf = map (\<lambda>i. (weight (all_edges pf ! i), int i)) [0..<?n]"
    using assms by (simp add: aligned_def)
  have "map snd (all_weights pf) = map int [0..<?n]"
    by (subst ws) (simp add: comp_def)
  moreover have "distinct (map int [0..<?n])"
    by (simp add: distinct_map)
  ultimately have "distinct (map snd (all_weights pf))" by simp
  then have "distinct (all_weights pf)" by (simp add: distinct_map)
  moreover have "list_all (entry_ok pf) (all_weights pf)"
    by (subst ws) (simp add: list_all_iff entry_ok_def)
  ultimately show ?thesis by (simp add: index_ok_def)
qed

lemma index_ok_sort_edges: "index_ok pf \<Longrightarrow> index_ok (sort_edges pf)"
  by (simp add: index_ok_def sort_edges_def list_all_iff entry_ok_def)

lemma remove_loop_set:
  "remove_loop pos r f xs = (r', ys) \<Longrightarrow> set ys \<subseteq> set xs"
proof (induction pos r f xs arbitrary: r' ys rule: remove_loop.induct)
  case (1 pos result first xs)
  show ?case
  proof (cases "first < length xs")
    case False
    with "1.prems" show ?thesis by (simp add: remove_loop.simps [of pos result first xs])
  next
    case True
    show ?thesis
    proof (cases "xs ! first \<noteq> xs ! pos")
      case neq: True
      from "1.prems" True neq
      have "remove_loop pos (Suc result) (Suc first) (xs[result := xs ! first]) = (r', ys)"
        by (simp add: remove_loop.simps [of pos result first xs])
      from "1.IH"(1) [OF True neq this] have "set ys \<subseteq> set (xs[result := xs ! first])" .
      also have "\<dots> \<subseteq> insert (xs ! first) (set xs)" by (rule set_update_subset_insert)
      also have "\<dots> = set xs" using True by (simp add: insert_absorb)
      finally show ?thesis .
    next
      case eq: False
      from "1.prems" True eq
      have "remove_loop pos result (Suc first) xs = (r', ys)"
        by (simp add: remove_loop.simps [of pos result first xs])
      from "1.IH"(2) [OF True eq this] show ?thesis .
    qed
  qed
qed

lemma erase_remove_set:
  assumes "erase_remove xs pos = Some ys"
  shows "set ys \<subseteq> set xs"
proof -
  obtain r zs where sr: "std_remove xs pos = (r, zs)" by fastforce
  then have "set zs \<subseteq> set xs"
    by (auto simp: std_remove_def Let_def split: if_splits dest: remove_loop_set)
  moreover from assms sr have "set ys \<subseteq> set zs"
    by (auto simp: erase_remove_def erase_at_def split: if_splits dest: in_set_takeD in_set_dropD)
  ultimately show ?thesis by simp
qed

text \<open>The ways in which a call of \<^verbatim>\<open>traverse\<close> returns.\<close>

lemma traverse_cases [consumes 1, case_names complete rejected accepted]:
  assumes "traverse pf = Inr (r, pf')"
  obtains
    (complete) "r = None" "pf' = pf" "num_of_traversed_edges pf = num_of_nodes pf - 1"
  | (rejected) pre item rest ws where
      "all_weights pf = pre @ item # rest" "\<forall>x\<in>set pre. skipped pf x" "entry_ok pf item"
      "num_of_traversed_edges pf \<noteq> num_of_nodes pf - 1"
      "entry_pair pf item \<notin> set (traversed_edges pf)"
      "check_cycle pf (fst (entry_pair pf item)) (snd (entry_pair pf item))"
      "erase_remove (all_weights pf) (length pre) = Some ws"
      "r = Some (new_Edge (- 1) (- 1) (- 1))" "pf' = pf\<lparr>all_weights := ws\<rparr>"
  | (accepted) pre item rest where
      "all_weights pf = pre @ item # rest" "\<forall>x\<in>set pre. skipped pf x" "entry_ok pf item"
      "num_of_traversed_edges pf \<noteq> num_of_nodes pf - 1"
      "entry_pair pf item \<notin> set (traversed_edges pf)"
      "\<not> check_cycle pf (fst (entry_pair pf item)) (snd (entry_pair pf item))"
      "r = Some (all_edges pf ! nat (snd item))"
      "pf' = accept_pair pf (fst (entry_pair pf item)) (snd (entry_pair pf item))"
proof (cases "dropWhile (skipped pf) (all_weights pf)")
  case Nil
  from assms show ?thesis unfolding traverse_eq Nil by simp
next
  case (Cons item rest)
  let ?pre = "takeWhile (skipped pf) (all_weights pf)"
  have split: "all_weights pf = ?pre @ item # rest"
    using Cons by (metis takeWhile_dropWhile_id)
  have pre: "\<forall>x\<in>set ?pre. skipped pf x" by (auto dest: set_takeWhileD)
  have ns: "\<not> skipped pf item" using dropWhile_Cons_nth [OF Cons] by simp
  from assms Cons have stop: "stop_at pf (length ?pre) item = Inr (r, pf')"
    by (simp add: traverse_eq)
  then have ok: "entry_ok pf item" by (auto simp: stop_at_def split: if_splits)
  show ?thesis
  proof (cases "num_of_traversed_edges pf = num_of_nodes pf - 1")
    case True
    with stop ok show ?thesis by (intro complete) (simp_all add: stop_at_def)
  next
    case cnt: False
    with ns ok have fresh: "entry_pair pf item \<notin> set (traversed_edges pf)"
      by (simp add: skipped_def)
    show ?thesis
    proof (cases "check_cycle pf (fst (entry_pair pf item)) (snd (entry_pair pf item))")
      case True
      with stop ok cnt obtain ws where "erase_remove (all_weights pf) (length ?pre) = Some ws"
        "r = Some (new_Edge (- 1) (- 1) (- 1))" "pf' = pf\<lparr>all_weights := ws\<rparr>"
        by (auto simp: stop_at_def split: option.splits)
      with split pre ok cnt fresh True show ?thesis by (intro rejected)
    next
      case False
      with stop ok cnt have "r = Some (all_edges pf ! nat (snd item))"
        "pf' = accept_pair pf (fst (entry_pair pf item)) (snd (entry_pair pf item))"
        by (simp_all add: stop_at_def)
      with split pre ok cnt fresh False show ?thesis by (intro accepted)
    qed
  qed
qed

lemma accept_pair_frame:
  "all_weights (accept_pair pf s d) = all_weights pf"
  "all_edges (accept_pair pf s d) = all_edges pf"
  "index (accept_pair pf s d) = index pf"
  "num_of_nodes (accept_pair pf s d) = num_of_nodes pf"
  "num_of_traversed_edges (accept_pair pf s d) = num_of_traversed_edges pf + 1"
  by (simp_all add: accept_pair_def augment_components_frame)

lemma traverse_frame:
  assumes "traverse pf = Inr (r, pf')"
  shows "all_edges pf' = all_edges pf" "num_of_nodes pf' = num_of_nodes pf" "index pf' = index pf"
    "set (all_weights pf') \<subseteq> set (all_weights pf)"
proof -
  show "all_edges pf' = all_edges pf"
    using assms by (cases rule: traverse_cases) (simp_all add: accept_pair_frame)
  show "num_of_nodes pf' = num_of_nodes pf"
    using assms by (cases rule: traverse_cases) (simp_all add: accept_pair_frame)
  show "index pf' = index pf"
    using assms by (cases rule: traverse_cases) (simp_all add: accept_pair_frame)
  show "set (all_weights pf') \<subseteq> set (all_weights pf)"
    using assms
  proof (cases rule: traverse_cases)
    case (rejected pre item rest ws)
    from erase_remove_set [OF rejected(7)] rejected(9) show ?thesis by simp
  qed (simp_all add: accept_pair_frame)
qed

lemma traverse_index_ok:
  assumes "traverse pf = Inr (r, pf')" "index_ok pf"
  shows "index_ok pf'"
  using assms(1)
proof (cases rule: traverse_cases)
  case complete
  with assms(2) show ?thesis by simp
next
  case (rejected pre item rest ws)
  from assms(2) have d: "distinct (all_weights pf)" by (simp add: index_ok_def)
  have "length pre < length (all_weights pf)" using rejected(1) by simp
  from erase_remove_distinct [OF d this] rejected(7)
  have "ws = take (length pre) (all_weights pf) @ drop (Suc (length pre)) (all_weights pf)"
    by simp
  then have ws: "ws = pre @ rest" using rejected(1) by simp
  with assms(2) rejected(1,9) show ?thesis
    by (auto simp: index_ok_def list_all_iff entry_ok_def)
next
  case (accepted pre item rest)
  with assms(2) show ?thesis
    by (simp add: index_ok_def list_all_iff entry_ok_def accept_pair_frame)
qed

lemma traverse_in_range:
  assumes "index_ok pf"
  shows "traverse pf \<noteq> Inl IndexOutOfRange" "traverse pf \<noteq> Inl EraseAtEnd"
proof -
  show "traverse pf \<noteq> Inl IndexOutOfRange"
  proof (cases "dropWhile (skipped pf) (all_weights pf)")
    case Nil
    show ?thesis unfolding traverse_eq Nil by simp
  next
    case (Cons item rest)
    from dropWhile_Cons_nth [OF Cons] have "item \<in> set (all_weights pf)" by (metis nth_mem)
    with assms have "entry_ok pf item" by (simp add: index_ok_def list_all_iff)
    with Cons show ?thesis
      by (simp add: traverse_eq stop_at_def split: option.splits)
  qed
  show "traverse pf \<noteq> Inl EraseAtEnd"
  proof (cases "dropWhile (skipped pf) (all_weights pf)")
    case Nil
    show ?thesis unfolding traverse_eq Nil by simp
  next
    case (Cons item rest)
    from dropWhile_Cons_nth [OF Cons]
    have "length (takeWhile (skipped pf) (all_weights pf)) < length (all_weights pf)" by simp
    from erase_remove_length [OF this] Cons show ?thesis
      by (auto simp: traverse_eq stop_at_def)
  qed
qed

lemma traverse_n_index_ok:
  "traverse_n k pf = Inr pf' \<Longrightarrow> index_ok pf \<Longrightarrow> index_ok pf'"
  by (induction k arbitrary: pf) (auto split: sum.splits dest: traverse_index_ok)

lemma traverse_n_in_range:
  "index_ok pf \<Longrightarrow> traverse_n k pf \<noteq> Inl IndexOutOfRange"
proof (induction k arbitrary: pf)
  case 0
  then show ?case by simp
next
  case (Suc k)
  show ?case
  proof (cases "traverse pf")
    case (Inl err)
    with traverse_in_range(1) [OF Suc.prems] show ?thesis by auto
  next
    case (Inr x)
    obtain r pf' where x: "x = (r, pf')" by (cases x)
    with Inr Suc.prems have "index_ok pf'" by (auto dest: traverse_index_ok)
    from Suc.IH [OF this] Inr x show ?thesis by simp
  qed
qed

lemma traverse_n_weights:
  "traverse_n k pf = Inr pf' \<Longrightarrow> set (all_weights pf') \<subseteq> set (all_weights pf)"
proof (induction k arbitrary: pf)
  case 0
  then show ?case by simp
next
  case (Suc k)
  then obtain r pf1 where t: "traverse pf = Inr (r, pf1)" and n: "traverse_n k pf1 = Inr pf'"
    by (auto split: sum.splits)
  from Suc.IH [OF n] traverse_frame(4) [OF t] show ?case by blast
qed

lemma print_items_in_range:
  "list_all (entry_ok pf) items \<Longrightarrow> print_items pf items \<noteq> Inl IndexOutOfRange"
  by (induction items) (auto simp: entry_ok_def split: sum.splits)

lemma print_in_range: "index_ok pf \<Longrightarrow> print pf \<noteq> Inl IndexOutOfRange"
  by (simp add: print_def index_ok_def print_items_in_range)

lemma is_sentinel_new_Edge: "is_sentinel (new_Edge (- 1) (- 1) (- 1))"
  by (simp add: is_sentinel_def new_Edge_def)

lemma traverse_passes:
  assumes "all_weights pf = pre @ item # rest" "\<forall>x\<in>set pre. skipped pf x" "\<not> skipped pf item"
  shows "traverse pf = stop_at pf (length pre) item"
proof -
  have "traverse pf = traverse_items pf 0 (pre @ item # rest)"
    using assms(1) by (simp add: traverse_def)
  also have "\<dots> = traverse_items pf (length pre) (item # rest)"
    using traverse_items_skip [OF assms(2), of 0 "item # rest"] by simp
  also have "\<dots> = stop_at pf (length pre) item"
    using assms(3) by (simp add: traverse_items_Cons del: traverse_items.simps(2))
  finally show ?thesis .
qed

section \<open>The accumulated cost and the refusal of reversed edges\<close>

lemma int_wrap_in_range: "in_int_range x \<Longrightarrow> int_wrap x = x"
  by (simp add: int_wrap_def in_int_range_def)

lemma int_wrap_add: "int_wrap (int_wrap a + b) = int_wrap (a + b)"
proof -
  have "(((a + 2147483648) mod 4294967296 - 2147483648) + b + 2147483648) mod 4294967296
      = ((a + 2147483648) mod 4294967296 + b) mod 4294967296"
    by (simp add: algebra_simps)
  also have "\<dots> = (a + 2147483648 + b) mod 4294967296"
    by (rule mod_add_left_eq)
  finally show ?thesis by (simp add: int_wrap_def algebra_simps)
qed

text \<open>The cost is the sum of the held weights, as 32-bit arithmetic gives it.\<close>

definition cost_ok :: "SpanningTree \<Rightarrow> bool" where
  "cost_ok mst = (mst_cost mst = int_wrap (sum_list (map weight (tree_edges mst))))"

lemma cost_ok_add_edge: "cost_ok mst \<Longrightarrow> cost_ok (add_edge edge mst)"
  by (simp add: cost_ok_def add_edge_def int_wrap_add)

text \<open>
  No addition of \<^verbatim>\<open>add_edge\<close> has overflowed when the weights \<open>ws\<close> were added in this
  order, starting from 0: every partial sum is in the range of \<^verbatim>\<open>int\<close>.
\<close>

definition no_overflow :: "int list \<Rightarrow> bool" where
  "no_overflow ws = list_all (\<lambda>j. in_int_range (sum_list (take j ws))) [0..<Suc (length ws)]"

lemma no_overflow_total: "no_overflow ws \<Longrightarrow> in_int_range (sum_list ws)"
proof -
  assume "no_overflow ws"
  then have "in_int_range (sum_list (take (length ws) ws))"
    unfolding no_overflow_def list_all_iff by (simp del: take_all)
  then show ?thesis by simp
qed

lemma cost_ok_sum:
  "cost_ok mst \<Longrightarrow> no_overflow (map weight (tree_edges mst)) \<Longrightarrow>
     mst_cost mst = sum_list (map weight (tree_edges mst))"
  by (simp add: cost_ok_def int_wrap_in_range no_overflow_total)

lemma main_steps_cost_ok:
  "main_steps k pf mst = Inr (pf', mst') \<Longrightarrow> cost_ok mst \<Longrightarrow> cost_ok mst'"
proof (induction k arbitrary: pf mst)
  case 0
  then show ?case by simp
next
  case (Suc k)
  show ?case
  proof (cases "traverse pf")
    case (Inl err)
    with Suc.prems show ?thesis by simp
  next
    case (Inr x)
    obtain r pf1 where x: "x = (r, pf1)" by (cases x)
    show ?thesis
    proof (cases r)
      case None
      with Suc.prems Inr x show ?thesis by simp
    next
      case (Some e)
      with Suc.prems(1) Inr x
      have "main_steps k pf1 (if \<not> is_sentinel e then add_edge e mst else mst) = Inr (pf', mst')"
        by simp
      moreover have "cost_ok (if \<not> is_sentinel e then add_edge e mst else mst)"
        using Suc.prems(2) by (simp add: cost_ok_add_edge)
      ultimately show ?thesis by (rule Suc.IH)
    qed
  qed
qed

lemma main_loop_cost_ok:
  "main_loop pf mst = Inr (pf', mst') \<Longrightarrow> cost_ok mst \<Longrightarrow> cost_ok mst'"
proof (induction pf mst rule: main_loop.induct)
  case (1 pf mst)
  show ?case
  proof (cases "traverse pf")
    case (Inl err)
    with "1.prems" show ?thesis by (subst (asm) main_loop.simps) simp
  next
    case (Inr x)
    obtain r pf1 where x: "x = (r, pf1)" by (cases x)
    show ?thesis
    proof (cases r)
      case None
      with "1.prems" Inr x show ?thesis by (subst (asm) main_loop.simps) simp
    next
      case (Some e)
      with "1.prems"(1) Inr x
      have "main_loop pf1 (if \<not> is_sentinel e then add_edge e mst else mst) = Inr (pf', mst')"
        by (subst (asm) main_loop.simps) simp
      moreover have "cost_ok (if \<not> is_sentinel e then add_edge e mst else mst)"
        using "1.prems"(2) by (simp add: cost_ok_add_edge)
      ultimately show ?thesis using "1.IH" [OF Inr x [symmetric] Some] by simp
    qed
  qed
qed

text \<open>No edge of the list has its reverse, with the same weight, in the list, loops apart.\<close>

definition no_reverse :: "PathFinder \<Rightarrow> bool" where
  "no_reverse pf = (\<forall>s d w. s \<noteq> d \<and> new_Edge s d w \<in> set (all_edges pf)
     \<longrightarrow> new_Edge d s w \<notin> set (all_edges pf))"

lemma new_Edge_eq: "new_Edge s d w = new_Edge s' d' w' \<longleftrightarrow> s = s' \<and> d = d' \<and> w = w'"
  by (auto simp: new_Edge_def)

lemma no_reverse_insert: "no_reverse pf \<Longrightarrow> no_reverse (snd (insert_new_edge s d w pf))"
  unfolding no_reverse_def insert_new_edge_def
  by (auto simp: list_ex_iff Edge_eq_iff new_Edge_eq)

lemma no_reverse_foldl:
  "no_reverse pf \<Longrightarrow> no_reverse (foldl (\<lambda>p (s, d, w). snd (insert_new_edge s d w p)) pf triples)"
  by (induction triples arbitrary: pf) (auto simp: no_reverse_insert split: prod.splits)

lemma no_reverse_parse_input: "no_reverse (parse_input nodes triples new_PathFinder)"
proof -
  have "no_reverse (new_PathFinder\<lparr>num_of_nodes := nodes\<rparr>)"
    by (simp add: no_reverse_def new_PathFinder_def)
  then show ?thesis unfolding parse_input_def by (rule no_reverse_foldl)
qed

lemma sorted_distinct_pairs:
  fixes ws :: "(int \<times> int) list"
  assumes "sorted ws" "distinct ws" "i < j" "j < length ws"
  shows "fst (ws ! i) \<le> fst (ws ! j) \<and> (fst (ws ! i) = fst (ws ! j) \<longrightarrow> snd (ws ! i) < snd (ws ! j))"
proof -
  have le: "ws ! i \<le> ws ! j" using assms by (simp add: sorted_nth_mono)
  have ne: "ws ! i \<noteq> ws ! j" using assms by (simp add: nth_eq_iff_index_eq)
  obtain a b where i: "ws ! i = (a, b)" by (cases "ws ! i")
  obtain c d where j: "ws ! j = (c, d)" by (cases "ws ! j")
  from le ne show ?thesis unfolding i j by (auto simp: less_eq_prod_def)
qed

section \<open>Completion\<close>

lemma traverse_exhausted:
  assumes "\<forall>x\<in>set (all_weights pf). skipped pf x"
  shows "traverse pf = Inl NoReturnValue"
proof -
  from assms have e: "dropWhile (skipped pf) (all_weights pf) = []" by simp
  show ?thesis unfolding traverse_eq e by simp
qed

lemma traverse_complete_at_once:
  assumes "all_weights pf = x # xs" "entry_ok pf x"
    "num_of_traversed_edges pf = num_of_nodes pf - 1"
  shows "traverse pf = Inr (None, pf)"
  using assms by (simp add: traverse_def entry_ok_def)

lemma traverse_then_complete:
  assumes "traverse pf = Inr (Some e, pf')"
    and "num_of_traversed_edges pf' = num_of_nodes pf' - 1"
  shows "traverse pf' = Inr (None, pf')"
  using assms(1)
proof (cases rule: traverse_cases)
  case complete
  then show ?thesis by simp
next
  case (rejected pre item rest ws)
  with assms(2) show ?thesis by simp
next
  case (accepted pre item rest)
  have w: "all_weights pf' = pre @ item # rest"
    and ed: "all_edges pf' = all_edges pf"
    using accepted by (simp_all add: accept_pair_frame)
  obtain x xs where x: "pre @ item # rest = x # xs" by (cases pre) auto
  have "entry_ok pf x"
  proof (cases pre)
    case Nil
    with x accepted(3) show ?thesis by simp
  next
    case (Cons y ys)
    with x accepted(2) show ?thesis by (simp add: skipped_def)
  qed
  then have "entry_ok pf' x" by (simp add: entry_ok_def ed)
  with w x assms(2) show ?thesis by (intro traverse_complete_at_once) simp_all
qed

lemma main_loop_result:
  assumes "main_loop pf mst = Inr (pf', mst')"
  shows "traverse pf' = Inr (None, pf') \<and> num_of_nodes pf' = num_of_nodes pf
    \<and> num_of_traversed_edges pf' = num_of_nodes pf - 1
    \<and> ((\<forall>e\<in>set (all_edges pf). \<not> is_sentinel e) \<longrightarrow>
         int (length (tree_edges mst')) - int (length (tree_edges mst))
           = num_of_traversed_edges pf' - num_of_traversed_edges pf)"
  using assms
proof (induction pf mst rule: main_loop.induct)
  case (1 pf mst)
  show ?case
  proof (cases "traverse pf")
    case (Inl err)
    with "1.prems" show ?thesis by (subst (asm) main_loop.simps) simp
  next
    case (Inr x)
    obtain r pf1 where x: "x = (r, pf1)" by (cases x)
    with Inr have t: "traverse pf = Inr (r, pf1)" by simp
    show ?thesis
    proof (cases r)
      case None
      with "1.prems" t have eq: "pf' = pf1" "mst' = mst" by (subst (asm) main_loop.simps, simp)+
      from t None have "pf1 = pf" "num_of_traversed_edges pf = num_of_nodes pf - 1"
        by (cases rule: traverse_cases, simp_all)+
      with eq t None show ?thesis by simp
    next
      case (Some e)
      let ?mst = "if \<not> is_sentinel e then add_edge e mst else mst"
      from "1.prems" t Some have run: "main_loop pf1 ?mst = Inr (pf', mst')"
        by (subst (asm) main_loop.simps) simp
      from "1.IH" [OF Inr x [symmetric] Some run]
      have ih: "traverse pf' = Inr (None, pf')" "num_of_nodes pf' = num_of_nodes pf1"
        "num_of_traversed_edges pf' = num_of_nodes pf1 - 1"
        "(\<forall>e\<in>set (all_edges pf1). \<not> is_sentinel e) \<longrightarrow>
           int (length (tree_edges mst')) - int (length (tree_edges ?mst))
             = num_of_traversed_edges pf' - num_of_traversed_edges pf1"
        by simp_all
      have fr: "num_of_nodes pf1 = num_of_nodes pf" "all_edges pf1 = all_edges pf"
        using traverse_frame [OF t] by simp_all
      have step: "(\<forall>e\<in>set (all_edges pf). \<not> is_sentinel e) \<longrightarrow>
           int (length (tree_edges ?mst)) - int (length (tree_edges mst))
             = num_of_traversed_edges pf1 - num_of_traversed_edges pf"
        using t
      proof (cases rule: traverse_cases)
        case complete
        with Some show ?thesis by simp
      next
        case (rejected pre item rest ws)
        from rejected(8) Some have "is_sentinel e" using is_sentinel_new_Edge by simp
        with rejected(9) show ?thesis by simp
      next
        case (accepted pre item rest)
        from accepted(3) have "nat (snd item) < length (all_edges pf)"
          unfolding entry_ok_def by linarith
        then have "all_edges pf ! nat (snd item) \<in> set (all_edges pf)"
          by (rule nth_mem)
        with accepted(7,8) Some show ?thesis
          by (auto simp: accept_pair_frame add_edge_def)
      qed
      from ih fr step show ?thesis by auto
    qed
  qed
qed

lemma parse_input_nodes: "num_of_nodes (parse_input nodes triples pf) = nodes"
proof -
  have "num_of_nodes (foldl (\<lambda>p (s, d, w). snd (insert_new_edge s d w p)) p triples) = num_of_nodes p"
    for p
    by (induction triples arbitrary: p) (auto simp: insert_new_edge_def split: prod.splits)
  then show ?thesis by (simp add: parse_input_def)
qed

lemma parse_input_edges:
  "e \<in> set (all_edges (parse_input nodes triples new_PathFinder)) \<Longrightarrow>
     \<exists>s d w. (s, d, w) \<in> set triples \<and> e = new_Edge s d w"
proof -
  have "e \<in> set (all_edges (foldl (\<lambda>p (s, d, w). snd (insert_new_edge s d w p)) p triples)) \<Longrightarrow>
     e \<in> set (all_edges p) \<or> (\<exists>s d w. (s, d, w) \<in> set triples \<and> e = new_Edge s d w)" for p
  proof (induction triples arbitrary: p)
    case Nil
    then show ?case by simp
  next
    case (Cons t ts)
    obtain s d w where t: "t = (s, d, w)" by (cases t)
    from Cons.prems have "e \<in> set (all_edges (foldl (\<lambda>p (s, d, w). snd (insert_new_edge s d w p))
      (snd (insert_new_edge s d w p)) ts))" by (simp add: t)
    from Cons.IH [OF this] show ?case
      by (auto simp: t insert_new_edge_def split: if_splits)
  qed
  from this [of "new_PathFinder\<lparr>num_of_nodes := nodes\<rparr>"] show
    "e \<in> set (all_edges (parse_input nodes triples new_PathFinder)) \<Longrightarrow>
     \<exists>s d w. (s, d, w) \<in> set triples \<and> e = new_Edge s d w"
    by (simp add: parse_input_def new_PathFinder_def)
qed

section \<open>Connected graphs: the selection completes\<close>

text \<open>Joined by a path of pairs of \<open>A\<close>, each taken in either direction.\<close>

definition linked :: "(int \<times> int) set \<Rightarrow> (int \<times> int) set" where
  "linked A = (A \<union> A\<inverse>)\<^sup>*"

lemma linked_refl: "(x, x) \<in> linked A"
  by (simp add: linked_def)

lemma linked_sym: "(x, y) \<in> linked A \<Longrightarrow> (y, x) \<in> linked A"
proof -
  have "sym ((A \<union> A\<inverse>)\<^sup>*)" by (intro sym_rtrancl sym_Un_converse)
  then show "(x, y) \<in> linked A \<Longrightarrow> (y, x) \<in> linked A"
    unfolding linked_def by (rule symD)
qed

lemma linked_trans: "(x, y) \<in> linked A \<Longrightarrow> (y, z) \<in> linked A \<Longrightarrow> (x, z) \<in> linked A"
  unfolding linked_def by (rule rtrancl_trans)

lemma linked_base: "(x, y) \<in> A \<Longrightarrow> (x, y) \<in> linked A"
  unfolding linked_def by blast

lemma linked_mono: "A \<subseteq> B \<Longrightarrow> linked A \<subseteq> linked B"
  unfolding linked_def by (intro rtrancl_mono) blast

lemma linked_closed: "A \<subseteq> linked B \<Longrightarrow> linked A \<subseteq> linked B"
proof -
  assume a: "A \<subseteq> linked B"
  have "A \<union> A\<inverse> \<subseteq> (B \<union> B\<inverse>)\<^sup>*"
    using a linked_sym [of _ _ B] unfolding linked_def by blast
  then show ?thesis unfolding linked_def by (rule rtrancl_subset_rtrancl)
qed

lemma linked_insert:
  assumes "(x, y) \<in> linked (insert (a, b) A)"
  shows "(x, y) \<in> linked A
     \<or> (((x, a) \<in> linked A \<or> (x, b) \<in> linked A) \<and> ((y, a) \<in> linked A \<or> (y, b) \<in> linked A))"
  using assms unfolding linked_def
proof (induction rule: rtrancl_induct)
  case base
  then show ?case by simp
next
  case (step y z)
  let ?L = "(A \<union> A\<inverse>)\<^sup>*"
  have sym: "\<And>p q. (p, q) \<in> ?L \<Longrightarrow> (q, p) \<in> ?L"
    using linked_sym [of _ _ A] by (simp add: linked_def)
  from step.hyps(2) consider "(y, z) \<in> A \<union> A\<inverse>" | "y = a \<and> z = b" | "y = b \<and> z = a"
    by auto
  then show ?case
  proof cases
    case 1
    then have yz: "(y, z) \<in> ?L" by blast
    have zy: "(z, y) \<in> ?L" by (rule sym [OF yz])
    from step.IH show ?thesis
    proof
      assume "(x, y) \<in> ?L"
      then have "(x, z) \<in> ?L" using yz by (rule rtrancl_trans)
      then show ?thesis by simp
    next
      assume r: "((x, a) \<in> ?L \<or> (x, b) \<in> ?L) \<and> ((y, a) \<in> ?L \<or> (y, b) \<in> ?L)"
      have "(z, a) \<in> ?L \<or> (z, b) \<in> ?L"
      proof (cases "(y, a) \<in> ?L")
        case True
        with zy have "(z, a) \<in> ?L" by (rule rtrancl_trans)
        then show ?thesis by simp
      next
        case False
        with r have "(y, b) \<in> ?L" by simp
        with zy have "(z, b) \<in> ?L" by (rule rtrancl_trans)
        then show ?thesis by simp
      qed
      with r show ?thesis by simp
    qed
  next
    case 2
    have "(z, b) \<in> ?L" using 2 by simp
    moreover from step.IH 2 have "(x, a) \<in> ?L \<or> (x, b) \<in> ?L" by auto
    ultimately show ?thesis by simp
  next
    case 3
    have "(z, a) \<in> ?L" using 3 by simp
    moreover from step.IH 3 have "(x, a) \<in> ?L \<or> (x, b) \<in> ?L" by auto
    ultimately show ?thesis by simp
  qed
qed

lemma scattered:
  assumes "finite A" "finite V"
  shows "\<exists>R\<subseteq>V. card V \<le> card R + card A \<and> (\<forall>x\<in>R. \<forall>y\<in>R. x \<noteq> y \<longrightarrow> (x, y) \<notin> linked A)"
  using assms(1)
proof (induction A)
  case empty
  have "linked {} = Id" by (simp add: linked_def)
  then show ?case by (intro exI [of _ V]) auto
next
  case (insert e A)
  obtain a b where e: "e = (a, b)" by (cases e)
  from insert.IH obtain R where R: "R \<subseteq> V" "card V \<le> card R + card A"
    and apart: "\<forall>x\<in>R. \<forall>y\<in>R. x \<noteq> y \<longrightarrow> (x, y) \<notin> linked A" by blast
  have finR: "finite R" using R(1) assms(2) by (rule finite_subset)
  let ?B = "{r \<in> R. (r, b) \<in> linked A}"
  have "\<forall>p\<in>?B. \<forall>q\<in>?B. p = q"
  proof (intro ballI)
    fix p q assume p: "p \<in> ?B" and q: "q \<in> ?B"
    then have "(p, b) \<in> linked A" "(b, q) \<in> linked A" by (auto intro: linked_sym)
    then have "(p, q) \<in> linked A" by (rule linked_trans)
    with apart p q show "p = q" by auto
  qed
  then have "card ?B \<le> Suc 0" using finR by (simp add: card_le_Suc0_iff_eq)
  moreover have "card (R - ?B) = card R - card ?B"
    using finR by (intro card_Diff_subset) auto
  ultimately have cR: "card R \<le> card (R - ?B) + 1" by simp
  have cA: "card (insert e A) = card A + 1" using insert.hyps by simp
  have "\<forall>x\<in>R - ?B. \<forall>y\<in>R - ?B. x \<noteq> y \<longrightarrow> (x, y) \<notin> linked (insert e A)"
  proof (intro ballI impI notI)
    fix x y assume x: "x \<in> R - ?B" and y: "y \<in> R - ?B" and ne: "x \<noteq> y"
      and l: "(x, y) \<in> linked (insert e A)"
    from x y ne apart have nl: "(x, y) \<notin> linked A" by blast
    from x y have "(x, b) \<notin> linked A" "(y, b) \<notin> linked A" by auto
    with linked_insert [OF l [unfolded e]] nl have "(x, a) \<in> linked A" "(y, a) \<in> linked A"
      by blast+
    then have "(x, a) \<in> linked A" "(a, y) \<in> linked A" by (auto intro: linked_sym)
    then have "(x, y) \<in> linked A" by (rule linked_trans)
    with nl show False ..
  qed
  moreover have "R - ?B \<subseteq> V" using R(1) by blast
  moreover have "card V \<le> card (R - ?B) + card (insert e A)" using R(2) cR cA by simp
  ultimately show ?case by blast
qed

lemma linked_card:
  assumes "finite A" "finite V" "\<forall>u\<in>V. \<forall>v\<in>V. (u, v) \<in> linked A"
  shows "card V \<le> card A + 1"
proof -
  from scattered [OF assms(1,2)] obtain R where R: "R \<subseteq> V" "card V \<le> card R + card A"
    and apart: "\<forall>x\<in>R. \<forall>y\<in>R. x \<noteq> y \<longrightarrow> (x, y) \<notin> linked A" by blast
  have "finite R" using R(1) assms(2) by (rule finite_subset)
  moreover have "\<forall>x\<in>R. \<forall>y\<in>R. x = y" using apart assms(3) R(1) by blast
  ultimately have "card R \<le> Suc 0" by (simp add: card_le_Suc0_iff_eq)
  with R(2) show ?thesis by simp
qed

lemma augment_from_sorted:
  "sorted (traversed_edges pf) \<Longrightarrow> sorted (traversed_edges (augment_from s d edge pf))"
proof (induction s d edge pf rule: augment_from.induct)
  case (1 s d edge pf)
  have st: "sorted (traversed_edges (augment_step s d edge pf))"
    by (rule augment_step_sorted [OF "1.prems"])
  show ?case
  proof (cases "find (\<lambda>p. edge < p) (traversed_edges (augment_step s d edge pf))")
    case None
    with st show ?thesis by (subst augment_from.simps) simp
  next
    case (Some nxt)
    with "1.IH" [OF refl Some st] show ?thesis by (subst augment_from.simps) simp
  qed
qed

lemma augment_components_sorted:
  "sorted (traversed_edges pf) \<Longrightarrow> sorted (traversed_edges (augment_components s d pf))"
  by (cases "traversed_edges pf") (simp_all add: augment_components_def augment_from_sorted)

lemma accept_pair_edges:
  assumes "sorted (traversed_edges pf)"
  shows "set (traversed_edges (accept_pair pf s d))
     = insert (s, d) (set (traversed_edges pf))
       \<union> (\<Union>p\<in>insert (s, d) (set (traversed_edges pf)). produced s d p)"
    and "sorted (traversed_edges (accept_pair pf s d))"
proof -
  let ?pf = "pf\<lparr>traversed_nodes := set_insert d (set_insert s (traversed_nodes pf)),
                traversed_edges := set_insert (s, d) (traversed_edges pf),
                num_of_traversed_edges := num_of_traversed_edges pf + 1\<rparr>"
  have s: "sorted (traversed_edges ?pf)" using assms by (simp add: sorted_set_insert)
  from augment_components_edges [OF s, of s d]
  show "set (traversed_edges (accept_pair pf s d))
     = insert (s, d) (set (traversed_edges pf))
       \<union> (\<Union>p\<in>insert (s, d) (set (traversed_edges pf)). produced s d p)"
    by (simp add: accept_pair_def)
  from augment_components_sorted [OF s, of s d]
  show "sorted (traversed_edges (accept_pair pf s d))" by (simp add: accept_pair_def)
qed

text \<open>The pairs of the loaded edges.\<close>

definition edge_set :: "PathFinder \<Rightarrow> (int \<times> int) set" where
  "edge_set pf = (\<lambda>e. (source e, destination e)) ` set (all_edges pf)"

text \<open>
  What holds between the calls of \<^verbatim>\<open>traverse\<close>, with \<open>A\<close> the pairs accepted so far: the
  counter counts them; every recorded pair joins two nodes that the accepted pairs
  join; an entry taken out of the weight index belongs to an edge whose ends the
  accepted pairs join; and once a pair is recorded, an entry with a recorded pair is
  left in the weight index.
\<close>

definition forest_inv :: "(int \<times> int) set \<Rightarrow> PathFinder \<Rightarrow> bool" where
  "forest_inv A pf \<longleftrightarrow>
     finite A \<and> int (card A) = num_of_traversed_edges pf
     \<and> A \<subseteq> set (traversed_edges pf) \<and> set (traversed_edges pf) \<subseteq> linked A
     \<and> sorted (traversed_edges pf) \<and> index_ok pf
     \<and> num_of_traversed_edges pf \<le> num_of_nodes pf - 1
     \<and> all_weights pf \<noteq> []
     \<and> (traversed_edges pf \<noteq> [] \<longrightarrow>
          (\<exists>item\<in>set (all_weights pf). entry_pair pf item \<in> set (traversed_edges pf)))
     \<and> (\<forall>i<length (all_edges pf).
          (\<exists>item\<in>set (all_weights pf). snd item = int i)
          \<or> (source (all_edges pf ! i), destination (all_edges pf ! i)) \<in> linked A)"

lemma produced_linked:
  assumes "q \<in> produced s d p" "p \<in> linked B" "(s, d) \<in> linked B"
  shows "q \<in> linked B"
proof -
  from assms(1) consider "q = (fst p, d)" "snd p = s" | "q = (s, snd p)" "fst p = d"
    by (auto simp: produced_def)
  then show ?thesis
  proof cases
    case 1
    then have "(fst p, s) \<in> linked B" using assms(2) by (cases p) simp
    from linked_trans [OF this assms(3)] 1 show ?thesis by simp
  next
    case 2
    then have "(d, snd p) \<in> linked B" using assms(2) by (cases p) simp
    from linked_trans [OF assms(3) this] 2 show ?thesis by simp
  qed
qed

lemma forest_inv_accept:
  assumes inv: "forest_inv A pf"
    and w: "all_weights pf = pre @ item # rest"
    and cnt: "num_of_traversed_edges pf \<noteq> num_of_nodes pf - 1"
    and fresh: "entry_pair pf item \<notin> set (traversed_edges pf)"
  shows "forest_inv (insert (entry_pair pf item) A)
           (accept_pair pf (fst (entry_pair pf item)) (snd (entry_pair pf item)))"
proof -
  obtain s d where p: "entry_pair pf item = (s, d)" by (cases "entry_pair pf item")
  let ?A = "insert (s, d) A"
  let ?pf = "accept_pair pf s d"
  let ?T = "set (traversed_edges pf)"
  from inv have fin: "finite A" and card: "int (card A) = num_of_traversed_edges pf"
    and sub: "A \<subseteq> ?T" and lk: "?T \<subseteq> linked A" and srt: "sorted (traversed_edges pf)"
    and iok: "index_ok pf" and le: "num_of_traversed_edges pf \<le> num_of_nodes pf - 1"
    and removed: "\<forall>i<length (all_edges pf).
          (\<exists>item\<in>set (all_weights pf). snd item = int i)
          \<or> (source (all_edges pf ! i), destination (all_edges pf ! i)) \<in> linked A"
    by (simp_all add: forest_inv_def)
  have T': "set (traversed_edges ?pf) = insert (s, d) ?T \<union> (\<Union>p\<in>insert (s, d) ?T. produced s d p)"
    and srt': "sorted (traversed_edges ?pf)"
    using accept_pair_edges [OF srt] by simp_all
  have notin: "(s, d) \<notin> A" using fresh sub p by auto
  have mono: "linked A \<subseteq> linked ?A" by (intro linked_mono) blast
  have sd: "(s, d) \<in> linked ?A" by (intro linked_base) simp
  have base: "insert (s, d) ?T \<subseteq> linked ?A" using lk mono sd by blast
  have 1: "finite ?A" using fin by simp
  have 2: "int (card ?A) = num_of_traversed_edges ?pf"
    using fin notin card by (simp add: accept_pair_frame)
  have 3: "?A \<subseteq> set (traversed_edges ?pf)" using sub by (auto simp: T')
  have 4: "set (traversed_edges ?pf) \<subseteq> linked ?A"
    unfolding T' using base sd by (auto dest: produced_linked)
  have 6: "index_ok ?pf"
    using iok by (simp add: index_ok_def list_all_iff entry_ok_def accept_pair_frame)
  have 7: "num_of_traversed_edges ?pf \<le> num_of_nodes ?pf - 1"
    using le cnt by (simp add: accept_pair_frame)
  have 8: "all_weights ?pf \<noteq> []" using w by (simp add: accept_pair_frame)
  have ep: "entry_pair ?pf = entry_pair pf"
    by (simp add: entry_pair_def accept_pair_frame fun_eq_iff)
  have 9: "\<exists>item\<in>set (all_weights ?pf). entry_pair ?pf item \<in> set (traversed_edges ?pf)"
    using w p by (intro bexI [of _ item]) (simp_all add: ep T' accept_pair_frame)
  have 10: "\<forall>i<length (all_edges ?pf).
          (\<exists>item\<in>set (all_weights ?pf). snd item = int i)
          \<or> (source (all_edges ?pf ! i), destination (all_edges ?pf ! i)) \<in> linked ?A"
    using removed mono by (auto simp: accept_pair_frame)
  from 1 2 3 4 srt' 6 7 8 9 10 show ?thesis
    unfolding p forest_inv_def by simp
qed

lemma check_cycle_linked:
  assumes "check_cycle pf s d" "set (traversed_edges pf) \<subseteq> linked A"
  shows "(s, d) \<in> linked A \<and> traversed_edges pf \<noteq> []"
proof -
  from assms(1) obtain k where
    "((s, k) \<in> set (traversed_edges pf) \<and> (d, k) \<in> set (traversed_edges pf))
     \<or> ((k, s) \<in> set (traversed_edges pf) \<and> (k, d) \<in> set (traversed_edges pf))"
    by (auto simp: check_cycle_iff is_edge_traversed_def)
  then show ?thesis
  proof
    assume a: "(s, k) \<in> set (traversed_edges pf) \<and> (d, k) \<in> set (traversed_edges pf)"
    with assms(2) have "(s, k) \<in> linked A" "(k, d) \<in> linked A" by (auto intro: linked_sym)
    then have "(s, d) \<in> linked A" by (rule linked_trans)
    with a show ?thesis by auto
  next
    assume a: "(k, s) \<in> set (traversed_edges pf) \<and> (k, d) \<in> set (traversed_edges pf)"
    with assms(2) have "(s, k) \<in> linked A" "(k, d) \<in> linked A" by (auto intro: linked_sym)
    then have "(s, d) \<in> linked A" by (rule linked_trans)
    with a show ?thesis by auto
  qed
qed

lemma forest_inv_reject:
  assumes inv: "forest_inv A pf"
    and w: "all_weights pf = pre @ item # rest"
    and ok: "entry_ok pf item"
    and fresh: "entry_pair pf item \<notin> set (traversed_edges pf)"
    and cyc: "check_cycle pf (fst (entry_pair pf item)) (snd (entry_pair pf item))"
  shows "forest_inv A (pf\<lparr>all_weights := pre @ rest\<rparr>)"
proof -
  let ?pf = "pf\<lparr>all_weights := pre @ rest\<rparr>"
  from inv have lk: "set (traversed_edges pf) \<subseteq> linked A" and iok: "index_ok pf"
    and keep: "traversed_edges pf \<noteq> [] \<longrightarrow>
          (\<exists>item\<in>set (all_weights pf). entry_pair pf item \<in> set (traversed_edges pf))"
    and removed: "\<forall>i<length (all_edges pf).
          (\<exists>item\<in>set (all_weights pf). snd item = int i)
          \<or> (source (all_edges pf ! i), destination (all_edges pf ! i)) \<in> linked A"
    by (simp_all add: forest_inv_def)
  from check_cycle_linked [OF cyc lk]
  have pl: "entry_pair pf item \<in> linked A" and ne: "traversed_edges pf \<noteq> []" by simp_all
  from keep ne obtain item0 where i0: "item0 \<in> set (all_weights pf)"
    "entry_pair pf item0 \<in> set (traversed_edges pf)" by blast
  with fresh have "item0 \<noteq> item" by auto
  with i0 w have i0': "item0 \<in> set (pre @ rest)" by auto
  have ep: "entry_pair ?pf = entry_pair pf" by (simp add: entry_pair_def fun_eq_iff)
  have 6: "index_ok ?pf"
    using iok w by (auto simp: index_ok_def list_all_iff entry_ok_def)
  have 8: "all_weights ?pf \<noteq> []" using i0' by auto
  have 9: "\<exists>item\<in>set (all_weights ?pf). entry_pair ?pf item \<in> set (traversed_edges ?pf)"
    using i0' i0(2) by (intro bexI [of _ item0]) (simp_all add: ep)
  have 10: "\<forall>i<length (all_edges ?pf).
          (\<exists>item\<in>set (all_weights ?pf). snd item = int i)
          \<or> (source (all_edges ?pf ! i), destination (all_edges ?pf ! i)) \<in> linked A"
  proof (intro allI impI)
    fix i assume "i < length (all_edges ?pf)"
    then have i: "i < length (all_edges pf)" by simp
    show "(\<exists>item\<in>set (all_weights ?pf). snd item = int i)
          \<or> (source (all_edges ?pf ! i), destination (all_edges ?pf ! i)) \<in> linked A"
    proof (cases "snd item = int i")
      case True
      then have "entry_pair pf item = (source (all_edges pf ! i), destination (all_edges pf ! i))"
        by (simp add: entry_pair_def)
      with pl show ?thesis by simp
    next
      case False
      from removed i have "(\<exists>item\<in>set (all_weights pf). snd item = int i)
          \<or> (source (all_edges pf ! i), destination (all_edges pf ! i)) \<in> linked A" by simp
      then show ?thesis
      proof
        assume "\<exists>item\<in>set (all_weights pf). snd item = int i"
        then obtain it where "it \<in> set (all_weights pf)" "snd it = int i" by blast
        with False w have "it \<in> set (pre @ rest)" by auto
        with \<open>snd it = int i\<close> show ?thesis by auto
      next
        assume "(source (all_edges pf ! i), destination (all_edges pf ! i)) \<in> linked A"
        then show ?thesis by simp
      qed
    qed
  qed
  from inv 6 8 9 10 show ?thesis unfolding forest_inv_def by simp
qed

lemma forest_inv_traverse:
  assumes "forest_inv A pf" "traverse pf = Inr (r, pf')"
  shows "\<exists>A'. forest_inv A' pf'"
  using assms(2)
proof (cases rule: traverse_cases)
  case complete
  with assms(1) show ?thesis by auto
next
  case (rejected pre item rest ws)
  from assms(1) have d: "distinct (all_weights pf)" by (simp add: forest_inv_def index_ok_def)
  have "length pre < length (all_weights pf)" using rejected(1) by simp
  from erase_remove_distinct [OF d this] rejected(7)
  have "ws = take (length pre) (all_weights pf) @ drop (Suc (length pre)) (all_weights pf)"
    by simp
  then have ws: "ws = pre @ rest" using rejected(1) by simp
  from forest_inv_reject [OF assms(1) rejected(1,3,5,6)] rejected(9) ws show ?thesis by auto
next
  case (accepted pre item rest)
  from forest_inv_accept [OF assms(1) accepted(1,4,5)] accepted(8) show ?thesis by auto
qed

text \<open>Every two node ids are joined by loaded edges.\<close>

definition all_linked :: "PathFinder \<Rightarrow> bool" where
  "all_linked pf = (\<forall>u v. 0 \<le> u \<and> u < num_of_nodes pf \<and> 0 \<le> v \<and> v < num_of_nodes pf
     \<longrightarrow> (u, v) \<in> linked (edge_set pf))"

lemma traverse_not_stuck:
  assumes inv: "forest_inv A pf" and conn: "all_linked pf"
  shows "traverse pf \<noteq> Inl NoReturnValue"
proof
  assume stuck: "traverse pf = Inl NoReturnValue"
  have all: "\<forall>x\<in>set (all_weights pf). skipped pf x"
  proof (cases "dropWhile (skipped pf) (all_weights pf)")
    case Nil
    then show ?thesis by simp
  next
    case (Cons item rest)
    with stuck have "stop_at pf (length (takeWhile (skipped pf) (all_weights pf))) item
        = Inl NoReturnValue"
      by (simp add: traverse_eq)
    then show ?thesis by (simp add: stop_at_def split: if_splits option.splits)
  qed
  from inv have fin: "finite A" and card: "int (card A) = num_of_traversed_edges pf"
    and lk: "set (traversed_edges pf) \<subseteq> linked A"
    and le: "num_of_traversed_edges pf \<le> num_of_nodes pf - 1"
    and ne: "all_weights pf \<noteq> []"
    and removed: "\<forall>i<length (all_edges pf).
          (\<exists>item\<in>set (all_weights pf). snd item = int i)
          \<or> (source (all_edges pf ! i), destination (all_edges pf ! i)) \<in> linked A"
    by (simp_all add: forest_inv_def)
  from ne obtain x where "x \<in> set (all_weights pf)" by (cases "all_weights pf") auto
  with all have cnt: "num_of_traversed_edges pf \<noteq> num_of_nodes pf - 1"
    by (auto simp: skipped_def)
  have "edge_set pf \<subseteq> linked A"
  proof
    fix p assume "p \<in> edge_set pf"
    then obtain i where i: "i < length (all_edges pf)"
      "p = (source (all_edges pf ! i), destination (all_edges pf ! i))"
      by (auto simp: edge_set_def in_set_conv_nth)
    from removed i(1) have "(\<exists>item\<in>set (all_weights pf). snd item = int i) \<or> p \<in> linked A"
      by (simp add: i(2))
    then show "p \<in> linked A"
    proof
      assume "\<exists>item\<in>set (all_weights pf). snd item = int i"
      then obtain it where it: "it \<in> set (all_weights pf)" "snd it = int i" by blast
      with all have "entry_pair pf it \<in> set (traversed_edges pf)" by (simp add: skipped_def)
      moreover have "entry_pair pf it = p" using it(2) i(2) by (simp add: entry_pair_def)
      ultimately show ?thesis using lk by auto
    qed
  qed
  then have "linked (edge_set pf) \<subseteq> linked A" by (rule linked_closed)
  with conn have "\<forall>u\<in>{0..<num_of_nodes pf}. \<forall>v\<in>{0..<num_of_nodes pf}. (u, v) \<in> linked A"
    by (auto simp: all_linked_def)
  from linked_card [OF fin _ this] have "card {0..<num_of_nodes pf} \<le> card A + 1" by simp
  then have "num_of_nodes pf \<le> int (card A) + 1" by simp
  with card le cnt show False by simp
qed

lemma main_loop_returns:
  assumes "forest_inv A pf" "all_linked pf"
  shows "\<exists>res. main_loop pf mst = Inr res"
  using assms
proof (induction pf mst arbitrary: A rule: main_loop.induct)
  case (1 pf mst)
  from "1.prems"(1) have iok: "index_ok pf" by (simp add: forest_inv_def)
  show ?case
  proof (cases "traverse pf")
    case (Inl err)
    with traverse_in_range [OF iok] traverse_not_stuck [OF "1.prems"] show ?thesis
      by (cases err) simp_all
  next
    case (Inr x)
    obtain r pf1 where x: "x = (r, pf1)" by (cases x)
    with Inr have t: "traverse pf = Inr (r, pf1)" by simp
    show ?thesis
    proof (cases r)
      case None
      with t show ?thesis by (subst main_loop.simps) simp
    next
      case (Some e)
      from forest_inv_traverse [OF "1.prems"(1) t] obtain A' where inv': "forest_inv A' pf1" ..
      have "all_linked pf1"
        using "1.prems"(2) traverse_frame(1,2) [OF t] by (simp add: all_linked_def edge_set_def)
      from "1.IH" [OF Inr x [symmetric] Some inv' this] t Some show ?thesis
        by (subst main_loop.simps) simp
    qed
  qed
qed

text \<open>
  A graph on the nodes \<open>0, ..., nodes - 1\<close>: every edge joins two of them; and a connected
  one: every two nodes are joined by a path of edges, taken in either direction.
\<close>

definition valid_graph :: "int \<Rightarrow> (int \<times> int \<times> int) list \<Rightarrow> bool" where
  "valid_graph nodes triples =
     list_all (\<lambda>(s, d, w). 0 \<le> s \<and> s < nodes \<and> 0 \<le> d \<and> d < nodes) triples"

definition connected_graph :: "int \<Rightarrow> (int \<times> int \<times> int) list \<Rightarrow> bool" where
  "connected_graph nodes triples =
     (\<forall>u v. 0 \<le> u \<and> u < nodes \<and> 0 \<le> v \<and> v < nodes
        \<longrightarrow> (u, v) \<in> linked ((\<lambda>(s, d, w). (s, d)) ` set triples))"

lemma insert_keeps_edges:
  "set (all_edges pf) \<subseteq> set (all_edges (snd (insert_new_edge s d w pf)))"
  by (auto simp: insert_new_edge_def)

lemma foldl_insert_keeps_edges:
  "set (all_edges p)
     \<subseteq> set (all_edges (foldl (\<lambda>p (s, d, w). snd (insert_new_edge s d w p)) p triples))"
proof (induction triples arbitrary: p)
  case Nil
  then show ?case by simp
next
  case (Cons t ts)
  obtain s d w where t: "t = (s, d, w)" by (cases t)
  from insert_keeps_edges [of p s d w] Cons [of "snd (insert_new_edge s d w p)"]
  show ?case by (simp add: t)
qed

lemma foldl_insert_covers:
  "(s, d, w) \<in> set triples \<Longrightarrow>
     new_Edge s d w \<in> set (all_edges (foldl (\<lambda>p (s, d, w). snd (insert_new_edge s d w p)) p triples))
     \<or> new_Edge d s w \<in> set (all_edges (foldl (\<lambda>p (s, d, w). snd (insert_new_edge s d w p)) p triples))"
proof (induction triples arbitrary: p)
  case Nil
  then show ?case by simp
next
  case (Cons t ts)
  obtain s' d' w' where t: "t = (s', d', w')" by (cases t)
  show ?case
  proof (cases "(s, d, w) = t")
    case True
    then have "new_Edge s d w \<in> set (all_edges (snd (insert_new_edge s d w p)))
             \<or> new_Edge d s w \<in> set (all_edges (snd (insert_new_edge s d w p)))"
      by (auto simp: insert_new_edge_def list_ex_iff Edge_eq_iff)
    with foldl_insert_keeps_edges [of "snd (insert_new_edge s d w p)" ts] True t
    show ?thesis by auto
  next
    case False
    with Cons.prems have "(s, d, w) \<in> set ts" by simp
    from Cons.IH [OF this, of "snd (insert_new_edge s' d' w' p)"] show ?thesis by (simp add: t)
  qed
qed

lemma parse_input_covers:
  assumes "(s, d, w) \<in> set triples"
  shows "(s, d) \<in> linked (edge_set (parse_input nodes triples pf))"
proof -
  from foldl_insert_covers [OF assms, of "pf\<lparr>num_of_nodes := nodes\<rparr>"]
  have "new_Edge s d w \<in> set (all_edges (parse_input nodes triples pf))
      \<or> new_Edge d s w \<in> set (all_edges (parse_input nodes triples pf))"
    by (simp add: parse_input_def)
  then have "(s, d) \<in> edge_set (parse_input nodes triples pf)
      \<or> (d, s) \<in> edge_set (parse_input nodes triples pf)"
    by (auto simp: edge_set_def new_Edge_def image_iff) force+
  then show ?thesis by (auto intro: linked_base linked_sym)
qed

lemma parse_input_nonempty:
  assumes "triples \<noteq> []"
  shows "all_edges (parse_input nodes triples new_PathFinder) \<noteq> []"
proof -
  obtain t ts where tr: "triples = t # ts" using assms by (cases triples) auto
  obtain s d w where t: "t = (s, d, w)" by (cases t)
  let ?p = "snd (insert_new_edge s d w (new_PathFinder\<lparr>num_of_nodes := nodes\<rparr>))"
  have "new_Edge s d w \<in> set (all_edges ?p)"
    by (simp add: insert_new_edge_def new_PathFinder_def)
  with foldl_insert_keeps_edges [of ?p ts]
  have "new_Edge s d w \<in> set (all_edges (parse_input nodes triples new_PathFinder))"
    by (auto simp: parse_input_def tr t)
  then show ?thesis by auto
qed

lemma forest_inv_start:
  assumes "triples \<noteq> []" "1 \<le> nodes"
  shows "forest_inv {} (sort_edges (parse_input nodes triples new_PathFinder))"
proof -
  let ?pf = "parse_input nodes triples new_PathFinder"
  have al: "aligned ?pf" by (rule aligned_parse_input)
  then have ws: "all_weights ?pf
      = map (\<lambda>i. (weight (all_edges ?pf ! i), int i)) [0..<length (all_edges ?pf)]"
    by (simp add: aligned_def)
  have iok: "index_ok (sort_edges ?pf)"
    by (intro index_ok_sort_edges aligned_index_ok al)
  have te: "traversed_edges (sort_edges ?pf) = []" "num_of_traversed_edges (sort_edges ?pf) = 0"
  proof -
    have "traversed_edges (foldl (\<lambda>p (s, d, w). snd (insert_new_edge s d w p)) p triples)
          = traversed_edges p
        \<and> num_of_traversed_edges (foldl (\<lambda>p (s, d, w). snd (insert_new_edge s d w p)) p triples)
          = num_of_traversed_edges p" for p
      by (induction triples arbitrary: p) (auto simp: insert_new_edge_def split: prod.splits)
    then show "traversed_edges (sort_edges ?pf) = []"
      "num_of_traversed_edges (sort_edges ?pf) = 0"
      by (simp_all add: sort_edges_def parse_input_def new_PathFinder_def)
  qed
  have n: "num_of_nodes (sort_edges ?pf) = nodes" by (simp add: sort_edges_def parse_input_nodes)
  have ne: "all_weights (sort_edges ?pf) \<noteq> []"
  proof -
    have "length (all_weights ?pf) = length (all_edges ?pf)" by (subst ws) simp
    with parse_input_nonempty [OF assms(1), of nodes] have "all_weights ?pf \<noteq> []" by auto
    then have "set (all_weights (sort_edges ?pf)) \<noteq> {}" by (simp add: sort_edges_def)
    then show ?thesis by auto
  qed
  have ent: "\<forall>i<length (all_edges (sort_edges ?pf)).
      \<exists>item\<in>set (all_weights (sort_edges ?pf)). snd item = int i"
  proof (intro allI impI)
    fix i assume "i < length (all_edges (sort_edges ?pf))"
    then have i: "i < length (all_edges ?pf)" by (simp add: sort_edges_def)
    then have "(weight (all_edges ?pf ! i), int i) \<in> set (all_weights ?pf)"
      by (subst ws) auto
    then show "\<exists>item\<in>set (all_weights (sort_edges ?pf)). snd item = int i"
      by (intro bexI [of _ "(weight (all_edges ?pf ! i), int i)"]) (simp_all add: sort_edges_def)
  qed
  from iok te n ne ent assms(2) show ?thesis by (simp add: forest_inv_def)
qed

lemma all_linked_start:
  assumes "connected_graph nodes triples"
  shows "all_linked (sort_edges (parse_input nodes triples new_PathFinder))"
proof -
  let ?pf = "parse_input nodes triples new_PathFinder"
  have "(\<lambda>(s, d, w). (s, d)) ` set triples \<subseteq> linked (edge_set ?pf)"
    using parse_input_covers by auto
  then have "linked ((\<lambda>(s, d, w). (s, d)) ` set triples) \<subseteq> linked (edge_set ?pf)"
    by (rule linked_closed)
  moreover have "edge_set (sort_edges ?pf) = edge_set ?pf"
    by (simp add: edge_set_def sort_edges_def)
  moreover have "num_of_nodes (sort_edges ?pf) = nodes"
    by (simp add: sort_edges_def parse_input_nodes)
  ultimately show ?thesis using assms unfolding all_linked_def connected_graph_def by auto
qed

lemma main_connected:
  assumes "valid_graph nodes triples" "connected_graph nodes triples" "triples \<noteq> []"
  shows "\<exists>pf tree. main nodes triples = Inr (pf, tree)"
proof -
  obtain t ts where tr: "triples = t # ts" using assms(3) by (cases triples) auto
  obtain s d w where t: "t = (s, d, w)" by (cases t)
  from assms(1) have "0 \<le> s \<and> s < nodes" by (simp add: valid_graph_def tr t)
  then have "1 \<le> nodes" by simp
  from main_loop_returns [OF forest_inv_start [OF assms(3) this] all_linked_start [OF assms(2)]]
  show ?thesis by (simp add: main_def)
qed

section \<open>The recorded pairs stay in ascending order; a graph without edges\<close>

lemma traverse_sorted:
  assumes "traverse pf = Inr (r, pf')" "sorted (traversed_edges pf)"
  shows "sorted (traversed_edges pf')"
  using assms(1)
proof (cases rule: traverse_cases)
  case (accepted pre item rest)
  with accept_pair_edges(2) [OF assms(2)] show ?thesis by simp
qed (simp_all add: assms(2))

lemma traverse_n_sorted:
  "traverse_n k (sort_edges (parse_input nodes triples new_PathFinder)) = Inr pf \<Longrightarrow>
     sorted (traversed_edges pf)"
proof -
  have gen: "traverse_n k p = Inr pf \<Longrightarrow> sorted (traversed_edges p) \<Longrightarrow> sorted (traversed_edges pf)"
    for p
  proof (induction k arbitrary: p)
    case 0
    then show ?case by simp
  next
    case (Suc k)
    then obtain r p1 where t: "traverse p = Inr (r, p1)" and n: "traverse_n k p1 = Inr pf"
      by (auto split: sum.splits)
    from Suc.IH [OF n traverse_sorted [OF t Suc.prems(2)]] show ?case .
  qed
  have "traversed_edges (foldl (\<lambda>p (s, d, w). snd (insert_new_edge s d w p)) q triples)
          = traversed_edges q" for q
    by (induction triples arbitrary: q) (auto simp: insert_new_edge_def split: prod.splits)
  then have "traversed_edges (sort_edges (parse_input nodes triples new_PathFinder)) = []"
    by (simp add: sort_edges_def parse_input_def new_PathFinder_def)
  then show "traverse_n k (sort_edges (parse_input nodes triples new_PathFinder)) = Inr pf \<Longrightarrow>
     sorted (traversed_edges pf)"
    using gen by simp
qed

lemma main_no_edges: "main nodes [] = Inl NoReturnValue"
proof -
  have "traverse (sort_edges (parse_input nodes [] new_PathFinder)) = Inl NoReturnValue"
    by (simp add: traverse_def sort_edges_def parse_input_def new_PathFinder_def)
  then show ?thesis by (simp add: main_def main_loop.simps)
qed

text \<open>
  The weight index is not empty, and once a pair is recorded it holds an entry whose
  pair is recorded: \<^verbatim>\<open>traverse\<close> never takes such an entry out.
\<close>

definition kept :: "PathFinder \<Rightarrow> bool" where
  "kept pf \<longleftrightarrow> all_weights pf \<noteq> []
     \<and> (traversed_edges pf \<noteq> [] \<longrightarrow>
          (\<exists>item\<in>set (all_weights pf). entry_pair pf item \<in> set (traversed_edges pf)))"

lemma kept_traverse:
  assumes "kept pf" "index_ok pf" "traverse pf = Inr (r, pf')"
  shows "kept pf'"
  using assms(3)
proof (cases rule: traverse_cases)
  case complete
  with assms(1) show ?thesis by simp
next
  case (rejected pre item rest ws)
  from assms(2) have d: "distinct (all_weights pf)" by (simp add: index_ok_def)
  have "length pre < length (all_weights pf)" using rejected(1) by simp
  from erase_remove_distinct [OF d this] rejected(7)
  have "ws = take (length pre) (all_weights pf) @ drop (Suc (length pre)) (all_weights pf)"
    by simp
  then have ws: "ws = pre @ rest" using rejected(1) by simp
  from rejected(6) have "traversed_edges pf \<noteq> []"
    by (auto simp: check_cycle_iff is_edge_traversed_def)
  with assms(1) obtain item0 where i0: "item0 \<in> set (all_weights pf)"
    "entry_pair pf item0 \<in> set (traversed_edges pf)" by (auto simp: kept_def)
  with rejected(5) have "item0 \<noteq> item" by auto
  with i0(1) rejected(1) have in': "item0 \<in> set (pre @ rest)" by auto
  have "entry_pair pf' = entry_pair pf"
    by (simp add: entry_pair_def fun_eq_iff rejected(9))
  with in' i0(2) show ?thesis
    unfolding kept_def by (auto simp: rejected(9) ws)
next
  case (accepted pre item rest)
  obtain s d where p: "entry_pair pf item = (s, d)" by (cases "entry_pair pf item")
  have pf': "pf' = accept_pair pf s d" using accepted(8) by (simp add: p)
  have ep: "entry_pair pf' = entry_pair pf"
    by (simp add: entry_pair_def fun_eq_iff pf' accept_pair_frame)
  have "(s, d) \<in> set (traversed_edges (accept_pair pf s d))"
    using augment_components_mono
      [of "pf\<lparr>traversed_nodes := set_insert d (set_insert s (traversed_nodes pf)),
              traversed_edges := set_insert (s, d) (traversed_edges pf),
              num_of_traversed_edges := num_of_traversed_edges pf + 1\<rparr>" s d]
    by (auto simp: accept_pair_def)
  then have "entry_pair pf' item \<in> set (traversed_edges pf')"
    unfolding ep p by (simp add: pf')
  moreover have "item \<in> set (all_weights pf')"
    by (simp add: accepted(1) pf' accept_pair_frame)
  ultimately show ?thesis unfolding kept_def by auto
qed

lemma kept_start:
  assumes "triples \<noteq> []"
  shows "kept (sort_edges (parse_input nodes triples new_PathFinder))"
proof -
  let ?pf = "parse_input nodes triples new_PathFinder"
  have "aligned ?pf" by (rule aligned_parse_input)
  then have "length (all_weights ?pf) = length (all_edges ?pf)" by (simp add: aligned_def)
  with parse_input_nonempty [OF assms, of nodes] have "all_weights ?pf \<noteq> []" by auto
  then have "set (all_weights (sort_edges ?pf)) \<noteq> {}" by (simp add: sort_edges_def)
  then have ne: "all_weights (sort_edges ?pf) \<noteq> []" by auto
  have "traversed_edges (foldl (\<lambda>p (s, d, w). snd (insert_new_edge s d w p)) q triples)
          = traversed_edges q" for q
    by (induction triples arbitrary: q) (auto simp: insert_new_edge_def split: prod.splits)
  then have "traversed_edges (sort_edges ?pf) = []"
    by (simp add: sort_edges_def parse_input_def new_PathFinder_def)
  with ne show ?thesis by (simp add: kept_def)
qed

lemma traverse_n_kept:
  "traverse_n k pf = Inr pf' \<Longrightarrow> kept pf \<Longrightarrow> index_ok pf \<Longrightarrow> kept pf'"
proof (induction k arbitrary: pf)
  case 0
  then show ?case by simp
next
  case (Suc k)
  then obtain r p1 where t: "traverse pf = Inr (r, p1)" and n: "traverse_n k p1 = Inr pf'"
    by (auto split: sum.splits)
  from Suc.IH [OF n kept_traverse [OF Suc.prems(2,3) t] traverse_index_ok [OF t Suc.prems(3)]]
  show ?case .
qed

lemma traverse_n_nodes: "traverse_n k pf = Inr pf' \<Longrightarrow> num_of_nodes pf' = num_of_nodes pf"
proof (induction k arbitrary: pf)
  case 0
  then show ?case by simp
next
  case (Suc k)
  then obtain r p1 where t: "traverse pf = Inr (r, p1)" and n: "traverse_n k p1 = Inr pf'"
    by (auto split: sum.splits)
  from Suc.IH [OF n] traverse_frame(2) [OF t] show ?case by simp
qed

lemma complete_in_run:
  assumes "triples \<noteq> []"
    and "traverse_n k (sort_edges (parse_input nodes triples new_PathFinder)) = Inr pf"
    and "num_of_traversed_edges pf = nodes - 1"
  shows "traverse pf = Inr (None, pf)"
proof -
  let ?pf = "sort_edges (parse_input nodes triples new_PathFinder)"
  have iok: "index_ok ?pf" by (intro index_ok_sort_edges aligned_index_ok aligned_parse_input)
  have k: "kept pf" by (rule traverse_n_kept [OF assms(2) kept_start [OF assms(1)] iok])
  have i: "index_ok pf" by (rule traverse_n_index_ok [OF assms(2) iok])
  have n: "num_of_nodes pf = nodes"
    using traverse_n_nodes [OF assms(2)] by (simp add: sort_edges_def parse_input_nodes)
  from k obtain x xs where w: "all_weights pf = x # xs"
    by (cases "all_weights pf") (auto simp: kept_def)
  with i have "entry_ok pf x" by (simp add: index_ok_def)
  from traverse_complete_at_once [OF w this] assms(3) n show ?thesis by simp
qed

lemma connected_single_node: "valid_graph 1 [] \<and> connected_graph 1 []"
proof -
  have "(u, v) \<in> linked {}" if "0 \<le> u \<and> u < 1 \<and> 0 \<le> v \<and> v < 1" for u v :: int
  proof -
    from that have "u = v" by simp
    then show ?thesis by (simp add: linked_refl)
  qed
  then show ?thesis by (simp add: valid_graph_def connected_graph_def)
qed

section \<open>Where the terminal signal is reported\<close>

text \<open>
  \<^verbatim>\<open>traverse\<close> returns \<^verbatim>\<open>nullptr\<close> only when the counter of accepted edges is
  \<open>num_of_nodes - 1\<close>, and changes nothing then, so that no edge is accepted afterwards.
  When a call returns an edge and leaves the counter at \<open>num_of_nodes - 1\<close>, the very next
  call returns \<^verbatim>\<open>nullptr\<close>; and if at least one edge was loaded, then in every state of a
  run in which the counter is \<open>nodes - 1\<close> the call returns \<^verbatim>\<open>nullptr\<close>. Whenever \<^verbatim>\<open>main\<close>
  returns, the counter is \<open>nodes - 1\<close>, and so is the number of edges of the tree, unless
  the triple \<open>(-1,-1,-1)\<close> was loaded as an edge (no graph on the nodes
  \<open>0, ..., nodes - 1\<close> holds it). And on a connected graph on the nodes
  \<open>0, ..., nodes - 1\<close> with at least one edge the selection does complete: \<^verbatim>\<open>main\<close>
  returns, with \<open>nodes - 1\<close> accepted edges.
\<close>

lemma complete_at_count:
  "(traverse pf = Inr (None, pf') \<longrightarrow>
      pf' = pf \<and> num_of_traversed_edges pf = num_of_nodes pf - 1)
   \<and> (traverse pf = Inr (Some e, pf') \<and> num_of_traversed_edges pf' = num_of_nodes pf' - 1 \<longrightarrow>
      traverse pf' = Inr (None, pf'))
   \<and> (triples \<noteq> []
        \<and> traverse_n k (sort_edges (parse_input nodes triples new_PathFinder)) = Inr pf1
        \<and> num_of_traversed_edges pf1 = nodes - 1 \<longrightarrow>
      traverse pf1 = Inr (None, pf1))
   \<and> (main nodes triples = Inr (pf'', tree) \<longrightarrow>
      num_of_traversed_edges pf'' = nodes - 1 \<and> traverse pf'' = Inr (None, pf'')
      \<and> ((- 1, - 1, - 1) \<notin> set triples \<longrightarrow> int (length (tree_edges tree)) = nodes - 1))
   \<and> (valid_graph nodes triples \<and> connected_graph nodes triples \<and> triples \<noteq> [] \<longrightarrow>
      (\<exists>pf tree. main nodes triples = Inr (pf, tree)
         \<and> num_of_traversed_edges pf = nodes - 1
         \<and> int (length (tree_edges tree)) = nodes - 1))"
proof -
  have a: "traverse pf = Inr (None, pf') \<longrightarrow>
      pf' = pf \<and> num_of_traversed_edges pf = num_of_nodes pf - 1"
  proof
    assume "traverse pf = Inr (None, pf')"
    then show "pf' = pf \<and> num_of_traversed_edges pf = num_of_nodes pf - 1"
      by (cases rule: traverse_cases) simp_all
  qed
  have b: "traverse pf = Inr (Some e, pf') \<and> num_of_traversed_edges pf' = num_of_nodes pf' - 1 \<longrightarrow>
      traverse pf' = Inr (None, pf')"
    using traverse_then_complete by blast
  have c: "main nodes triples = Inr (p, t) \<longrightarrow>
      num_of_traversed_edges p = nodes - 1 \<and> traverse p = Inr (None, p)
      \<and> ((- 1, - 1, - 1) \<notin> set triples \<longrightarrow> int (length (tree_edges t)) = nodes - 1)" for p t
  proof
    let ?pf = "sort_edges (parse_input nodes triples new_PathFinder)"
    assume "main nodes triples = Inr (p, t)"
    then have run: "main_loop ?pf new_SpanningTree = Inr (p, t)" by (simp add: main_def)
    have n: "num_of_nodes ?pf = nodes" by (simp add: sort_edges_def parse_input_nodes)
    have z: "num_of_traversed_edges ?pf = 0"
    proof -
      have "num_of_traversed_edges (foldl (\<lambda>p (s, d, w). snd (insert_new_edge s d w p)) q triples)
          = num_of_traversed_edges q" for q
        by (induction triples arbitrary: q) (auto simp: insert_new_edge_def split: prod.splits)
      then show ?thesis by (simp add: sort_edges_def parse_input_def new_PathFinder_def)
    qed
    have ns: "(- 1, - 1, - 1) \<notin> set triples \<Longrightarrow> \<forall>e\<in>set (all_edges ?pf). \<not> is_sentinel e"
    proof
      fix e assume no: "(- 1, - 1, - 1) \<notin> set triples" and "e \<in> set (all_edges ?pf)"
      then have "e \<in> set (all_edges (parse_input nodes triples new_PathFinder))"
        by (simp add: sort_edges_def)
      from parse_input_edges [OF this] obtain s d w
        where "(s, d, w) \<in> set triples" "e = new_Edge s d w" by blast
      with no show "\<not> is_sentinel e" by (auto simp: is_sentinel_def new_Edge_def)
    qed
    from main_loop_result [OF run] n z ns
    show "num_of_traversed_edges p = nodes - 1 \<and> traverse p = Inr (None, p)
      \<and> ((- 1, - 1, - 1) \<notin> set triples \<longrightarrow> int (length (tree_edges t)) = nodes - 1)"
      by (auto simp: new_SpanningTree_def)
  qed
  have d: "valid_graph nodes triples \<and> connected_graph nodes triples \<and> triples \<noteq> [] \<longrightarrow>
      (\<exists>pf tree. main nodes triples = Inr (pf, tree)
         \<and> num_of_traversed_edges pf = nodes - 1
         \<and> int (length (tree_edges tree)) = nodes - 1)"
  proof
    assume h: "valid_graph nodes triples \<and> connected_graph nodes triples \<and> triples \<noteq> []"
    then obtain p t where run: "main nodes triples = Inr (p, t)"
      using main_connected by blast
    from h have "(- 1, - 1, - 1) \<notin> set triples"
      by (auto simp: valid_graph_def list_all_iff)
    with c [of p t] run show "\<exists>pf tree. main nodes triples = Inr (pf, tree)
         \<and> num_of_traversed_edges pf = nodes - 1
         \<and> int (length (tree_edges tree)) = nodes - 1"
      by blast
  qed
  have b': "triples \<noteq> []
        \<and> traverse_n k (sort_edges (parse_input nodes triples new_PathFinder)) = Inr pf1
        \<and> num_of_traversed_edges pf1 = nodes - 1 \<longrightarrow>
      traverse pf1 = Inr (None, pf1)"
    using complete_in_run by blast
  from a b b' c [of pf'' tree] d show ?thesis by blast
qed

section \<open>The claims\<close>

text \<open>
  Claim C1 says that on every connected graph the terminal signal is reported as soon
  as the counter of accepted edges is \<open>num_of_nodes - 1\<close>. The code does not at the graph
  with one node and no edge: it is connected, and the counter is \<open>num_of_nodes - 1 = 0\<close>
  from the start; but the check of the counter stands inside the loop over the weight
  index, which is empty, so the first call of \<^verbatim>\<open>traverse\<close> reaches the end of the
  function, where there is no return statement (as in claim C3), and no \<^verbatim>\<open>nullptr\<close> is
  returned. With one node and the loop edge \<open>(0,0,3)\<close> the first call does return
  \<^verbatim>\<open>nullptr\<close> at once. On every input with at least one edge the claim holds (lemma
  \<open>complete_at_count\<close>).
\<close>

theorem C1_one_node_no_signal:
  "valid_graph 1 [] \<and> connected_graph 1 []
   \<and> num_of_traversed_edges (sort_edges (parse_input 1 [] new_PathFinder))
       = num_of_nodes (sort_edges (parse_input 1 [] new_PathFinder)) - 1
   \<and> traverse (sort_edges (parse_input 1 [] new_PathFinder)) = Inl NoReturnValue
   \<and> main 1 [] = Inl NoReturnValue
   \<and> traverse (sort_edges (parse_input 1 [(0, 0, 3)] new_PathFinder))
       = Inr (None, sort_edges (parse_input 1 [(0, 0, 3)] new_PathFinder))
   \<and> main 1 [(0, 0, 3)]
       = Inr (sort_edges (parse_input 1 [(0, 0, 3)] new_PathFinder), new_SpanningTree)"
proof -
  have "num_of_traversed_edges (sort_edges (parse_input 1 [] new_PathFinder))
       = num_of_nodes (sort_edges (parse_input 1 [] new_PathFinder)) - 1"
    by (simp add: sort_edges_def parse_input_def new_PathFinder_def)
  moreover have "traverse (sort_edges (parse_input 1 [] new_PathFinder)) = Inl NoReturnValue"
    by (simp add: traverse_def sort_edges_def parse_input_def new_PathFinder_def)
  moreover have "traverse (sort_edges (parse_input 1 [(0, 0, 3)] new_PathFinder))
       = Inr (None, sort_edges (parse_input 1 [(0, 0, 3)] new_PathFinder))"
    by code_simp
  moreover have "main 1 [(0, 0, 3)]
       = Inr (sort_edges (parse_input 1 [(0, 0, 3)] new_PathFinder), new_SpanningTree)"
    by code_simp
  ultimately show ?thesis using connected_single_node main_no_edges [of 1] by simp
qed

theorem C1_witness:
  "0 \<le> (0 :: int) \<and> (0 :: int) < 1
   \<and> (0 :: int, 0 :: int) \<in> linked ((\<lambda>(s, d, w). (s, d)) ` set ([] :: (int \<times> int \<times> int) list))
   \<and> main 1 [] = Inl NoReturnValue"
proof -
  have "connected_graph 1 []" and "main 1 [] = Inl NoReturnValue"
    using C1_one_node_no_signal by blast+
  then show ?thesis unfolding connected_graph_def by simp
qed

text \<open>
  Claim C2. With four nodes and the edges (0,1,1), (1,2,2), (2,3,3), (0,3,4) inserted in
  this order, the loop of \<^verbatim>\<open>main\<close> ends with \<^verbatim>\<open>nullptr\<close> after it has added (0,1,1),
  (1,2,2), (2,3,3) to the tree, in this order, and nothing else; the cost of the tree
  is 6.
\<close>

theorem C2_four_node_scenario:
  "main 4 [(0, 1, 1), (1, 2, 2), (2, 3, 3), (0, 3, 4)] =
     Inr (\<lparr>all_weights = [(1, 0), (2, 1), (3, 2), (4, 3)],
            all_edges = [new_Edge 0 1 1, new_Edge 1 2 2, new_Edge 2 3 3, new_Edge 0 3 4],
            traversed_edges = [(0, 1), (0, 2), (0, 3), (1, 2), (1, 3), (2, 3)],
            index = 4, num_of_nodes = 4, num_of_traversed_edges = 3,
            traversed_nodes = [0, 1, 2, 3]\<rparr>,
          \<lparr>mst_cost = 6, tree_edges = [new_Edge 0 1 1, new_Edge 1 2 2, new_Edge 2 3 3]\<rparr>)"
  by code_simp

text \<open>
  Claim C3 says that \<^verbatim>\<open>traverse\<close> reports the terminal signal when the weight index is
  exhausted before the counter reaches \<open>num_of_nodes - 1\<close>. The code does not: with four
  nodes and the edges (0,1,1) and (2,3,2), the first two calls of \<^verbatim>\<open>traverse\<close> accept
  both edges; the third call passes over both entries, the counter being 2 and not 3,
  and control reaches the end of \<^verbatim>\<open>traverse\<close>, where there is no return statement. No
  \<^verbatim>\<open>nullptr\<close> is returned. So it is for every call that passes over all entries (lemma
  \<open>traverse_exhausted\<close>).
\<close>

theorem C3_disconnected_no_return:
  "traverse_n 2 (sort_edges (parse_input 4 [(0, 1, 1), (2, 3, 2)] new_PathFinder))
     = Inr \<lparr>all_weights = [(1, 0), (2, 1)], all_edges = [new_Edge 0 1 1, new_Edge 2 3 2],
            traversed_edges = [(0, 1), (2, 3)], index = 2, num_of_nodes = 4,
            num_of_traversed_edges = 2, traversed_nodes = [0, 1, 2, 3]\<rparr>
   \<and> traverse \<lparr>all_weights = [(1, 0), (2, 1)], all_edges = [new_Edge 0 1 1, new_Edge 2 3 2],
            traversed_edges = [(0, 1), (2, 3)], index = 2, num_of_nodes = 4,
            num_of_traversed_edges = 2, traversed_nodes = [0, 1, 2, 3]\<rparr>
     = Inl NoReturnValue
   \<and> main 4 [(0, 1, 1), (2, 3, 2)] = Inl NoReturnValue"
  by code_simp

text \<open>
  Claim C4. \<^verbatim>\<open>check_cycle\<close> answers true exactly when some node id \<open>k\<close> with
  \<open>0 \<le> k < num_of_nodes\<close> has both \<open>(source, k)\<close> and \<open>(destination, k)\<close> recorded, or both
  \<open>(k, source)\<close> and \<open>(k, destination)\<close>; \<^verbatim>\<open>is_edge_traversed\<close> looks the ordered pair up
  as it is.
\<close>

theorem C4_check_cycle:
  "(check_cycle pf source_node destination_node \<longleftrightarrow>
      (\<exists>k. 0 \<le> k \<and> k < num_of_nodes pf \<and>
         (((source_node, k) \<in> set (traversed_edges pf)
             \<and> (destination_node, k) \<in> set (traversed_edges pf))
          \<or> ((k, source_node) \<in> set (traversed_edges pf)
             \<and> (k, destination_node) \<in> set (traversed_edges pf)))))
   \<and> (is_edge_traversed pf a b \<longleftrightarrow> (a, b) \<in> set (traversed_edges pf))"
  unfolding check_cycle_iff by (simp add: is_edge_traversed_def)

text \<open>
  Claim C5. \<^verbatim>\<open>augment_components(source, destination)\<close>, run on a set in ascending order
  (as \<^verbatim>\<open>std::set\<close> keeps it, and as it is in every state of a run), leaves in
  \<^verbatim>\<open>traversed_edges\<close> the pairs known at the call and, beyond them, exactly the pairs of
  one pass over those: \<open>(x, destination)\<close> for each known \<open>(x, y)\<close> with \<open>y = source\<close> and
  \<open>x \<noteq> destination\<close>, and \<open>(source, y)\<close> for each known \<open>(x, y)\<close> with \<open>x = destination\<close>
  and \<open>y \<noteq> source\<close>. The loop does visit pairs that it inserted above its position, but
  they yield nothing new. In the example the pair \<open>(0, 3)\<close>, which follows from the
  added \<open>(0, 2)\<close> and the known \<open>(2, 3)\<close>, is not added.
\<close>

theorem C5_single_pass:
  assumes "sorted (traversed_edges pf)"
  shows "set (traversed_edges (augment_components s d pf))
     = set (traversed_edges pf)
       \<union> {(x, d) | x y. (x, y) \<in> set (traversed_edges pf) \<and> y = s \<and> x \<noteq> d}
       \<union> {(s, y) | x y. (x, y) \<in> set (traversed_edges pf) \<and> x = d \<and> y \<noteq> s}"
proof -
  have "(\<Union>p\<in>set (traversed_edges pf). produced s d p)
      = {(x, d) | x y. (x, y) \<in> set (traversed_edges pf) \<and> y = s \<and> x \<noteq> d}
       \<union> {(s, y) | x y. (x, y) \<in> set (traversed_edges pf) \<and> x = d \<and> y \<noteq> s}"
    by (auto simp: produced_def)
  with augment_components_edges [OF assms, of s d] show ?thesis by (simp add: Un_assoc)
qed

theorem C5_witness:
  "sorted [(0 :: int, 1 :: int), (1, 2), (2, 3)]
   \<and> traversed_edges (augment_components 1 2
         (new_PathFinder\<lparr>traversed_edges := [(0, 1), (1, 2), (2, 3)]\<rparr>))
       = [(0, 1), (0, 2), (1, 2), (1, 3), (2, 3)]
   \<and> set [(0 :: int, 1 :: int), (1, 2), (2, 3)]
       \<union> {(x, 2) | x y. (x, y) \<in> set [(0 :: int, 1 :: int), (1, 2), (2, 3)] \<and> y = 1 \<and> x \<noteq> 2}
       \<union> {(1, y) | x y. (x, y) \<in> set [(0 :: int, 1 :: int), (1, 2), (2, 3)] \<and> x = 2 \<and> y \<noteq> 1}
     = set [(0, 1), (0, 2), (1, 2), (1, 3), (2, 3)]
   \<and> (0 :: int, 3 :: int) \<notin> set [(0, 1), (0, 2), (1, 2), (1, 3), (2, 3)]"
proof -
  let ?pf = "new_PathFinder\<lparr>traversed_edges := [(0, 1), (1, 2), (2, 3)]\<rparr>"
  have s: "sorted [(0 :: int, 1 :: int), (1, 2), (2, 3)]" by simp
  then have s': "sorted (traversed_edges ?pf)" by simp
  have r: "traversed_edges (augment_components 1 2 ?pf) = [(0, 1), (0, 2), (1, 2), (1, 3), (2, 3)]"
    by code_simp
  have te: "traversed_edges ?pf = [(0, 1), (1, 2), (2, 3)]" by simp
  from C5_single_pass [OF s', of 1 2]
  have "set [(0 :: int, 1 :: int), (1, 2), (2, 3)]
       \<union> {(x, 2) | x y. (x, y) \<in> set [(0 :: int, 1 :: int), (1, 2), (2, 3)] \<and> y = 1 \<and> x \<noteq> 2}
       \<union> {(1, y) | x y. (x, y) \<in> set [(0 :: int, 1 :: int), (1, 2), (2, 3)] \<and> x = 2 \<and> y \<noteq> 1}
     = set [(0, 1), (0, 2), (1, 2), (1, 3), (2, 3)]"
    unfolding r te by (rule sym)
  with s r show ?thesis by simp
qed

text \<open>
  Claim C6. After \<^verbatim>\<open>sort_edges\<close> the weight index of a loaded graph is in ascending
  order of the pairs \<open>(weight, index)\<close>: the weights ascend, and entries of equal weight
  come in the order of their indices, which is the order of insertion (claim C10).
  \<^verbatim>\<open>std::sort\<close> promises a sorted rearrangement and no more; there is only one, so
  whatever rearrangement it returns, the loop of \<^verbatim>\<open>main\<close> runs on the same weight index
  and returns the same tree, cost and final state.
\<close>

theorem C6_deterministic_order:
  "sorted (all_weights (sort_edges (parse_input nodes triples new_PathFinder)))
   \<and> mset (all_weights (sort_edges (parse_input nodes triples new_PathFinder)))
       = mset (all_weights (parse_input nodes triples new_PathFinder))
   \<and> (\<forall>i j. i < j \<and> j < length (all_weights (sort_edges (parse_input nodes triples new_PathFinder)))
        \<longrightarrow> fst (all_weights (sort_edges (parse_input nodes triples new_PathFinder)) ! i)
              \<le> fst (all_weights (sort_edges (parse_input nodes triples new_PathFinder)) ! j)
          \<and> (fst (all_weights (sort_edges (parse_input nodes triples new_PathFinder)) ! i)
               = fst (all_weights (sort_edges (parse_input nodes triples new_PathFinder)) ! j)
             \<longrightarrow> snd (all_weights (sort_edges (parse_input nodes triples new_PathFinder)) ! i)
                   < snd (all_weights (sort_edges (parse_input nodes triples new_PathFinder)) ! j)))
   \<and> (\<forall>ws. sorted ws \<and> mset ws = mset (all_weights (parse_input nodes triples new_PathFinder))
        \<longrightarrow> ws = all_weights (sort_edges (parse_input nodes triples new_PathFinder))
          \<and> main_loop ((parse_input nodes triples new_PathFinder)\<lparr>all_weights := ws\<rparr>)
               new_SpanningTree
             = main nodes triples)"
proof -
  let ?pf = "parse_input nodes triples new_PathFinder"
  let ?ws = "all_weights (sort_edges ?pf)"
  have ws: "?ws = sort (all_weights ?pf)" by (simp add: sort_edges_def)
  have srt: "sorted ?ws" by (simp add: ws)
  have ms: "mset ?ws = mset (all_weights ?pf)" by (simp add: ws)
  have "index_ok (sort_edges ?pf)"
    by (intro index_ok_sort_edges aligned_index_ok aligned_parse_input)
  then have dist: "distinct ?ws" by (simp add: index_ok_def)
  have order: "\<forall>i j. i < j \<and> j < length ?ws
        \<longrightarrow> fst (?ws ! i) \<le> fst (?ws ! j)
          \<and> (fst (?ws ! i) = fst (?ws ! j) \<longrightarrow> snd (?ws ! i) < snd (?ws ! j))"
    using sorted_distinct_pairs [OF srt dist] by blast
  have uniq: "\<forall>ws. sorted ws \<and> mset ws = mset (all_weights ?pf)
        \<longrightarrow> ws = ?ws \<and> main_loop (?pf\<lparr>all_weights := ws\<rparr>) new_SpanningTree = main nodes triples"
  proof (intro allI impI)
    fix ws assume a: "sorted ws \<and> mset ws = mset (all_weights ?pf)"
    then have "sort (all_weights ?pf) = ws" by (intro properties_for_sort) simp_all
    then have e: "ws = ?ws" by (simp add: ws)
    have "?pf\<lparr>all_weights := ?ws\<rparr> = sort_edges ?pf" by (simp add: sort_edges_def)
    then have "main_loop (?pf\<lparr>all_weights := ?ws\<rparr>) new_SpanningTree = main nodes triples"
      by (simp only: main_def)
    with e show "ws = ?ws \<and> main_loop (?pf\<lparr>all_weights := ws\<rparr>) new_SpanningTree = main nodes triples"
      by simp
  qed
  from srt ms order uniq show ?thesis by blast
qed

theorem C6_witness:
  "all_weights (sort_edges (parse_input 3 [(0, 1, 5), (1, 2, 5), (0, 2, 1)] new_PathFinder))
     = [(1, 2), (5, 0), (5, 1)]
   \<and> fst ([(1, 2), (5, 0), (5, 1 :: int) :: int \<times> int] ! 1) = fst ([(1, 2), (5, 0), (5, 1 :: int) :: int \<times> int] ! 2)
   \<and> snd ([(1, 2), (5, 0), (5, 1 :: int) :: int \<times> int] ! 1) < snd ([(1, 2), (5, 0), (5, 1 :: int) :: int \<times> int] ! 2)
   \<and> sorted [(1, 2), (5, 0), (5, 1 :: int) :: int \<times> int]
   \<and> mset [(1, 2), (5, 0), (5, 1 :: int) :: int \<times> int]
       = mset (all_weights (parse_input 3 [(0, 1, 5), (1, 2, 5), (0, 2, 1)] new_PathFinder))
   \<and> main_loop ((parse_input 3 [(0, 1, 5), (1, 2, 5), (0, 2, 1)] new_PathFinder)
                  \<lparr>all_weights := [(1, 2), (5, 0), (5, 1)]\<rparr>) new_SpanningTree
       = main 3 [(0, 1, 5), (1, 2, 5), (0, 2, 1)]
   \<and> main 3 [(0, 1, 5), (1, 2, 5), (0, 2, 1)]
       = Inr (\<lparr>all_weights = [(1, 2), (5, 0), (5, 1)],
               all_edges = [new_Edge 0 1 5, new_Edge 1 2 5, new_Edge 0 2 1],
               traversed_edges = [(0, 1), (0, 2)], index = 3, num_of_nodes = 3,
               num_of_traversed_edges = 2, traversed_nodes = [0, 1, 2]\<rparr>,
              \<lparr>mst_cost = 6, tree_edges = [new_Edge 0 2 1, new_Edge 0 1 5]\<rparr>)"
proof -
  let ?pf = "parse_input 3 [(0, 1, 5), (1, 2, 5), (0, 2, 1)] new_PathFinder"
  let ?ws = "[(1, 2), (5, 0), (5, 1 :: int) :: int \<times> int]"
  have w: "all_weights ?pf = [(5, 0), (5, 1), (1, 2)]" by code_simp
  have sw: "all_weights (sort_edges ?pf) = ?ws" by code_simp
  have s: "sorted ?ws" by simp
  have m: "mset ?ws = mset (all_weights ?pf)" unfolding w by simp
  have run: "main 3 [(0, 1, 5), (1, 2, 5), (0, 2, 1)]
       = Inr (\<lparr>all_weights = [(1, 2), (5, 0), (5, 1)],
               all_edges = [new_Edge 0 1 5, new_Edge 1 2 5, new_Edge 0 2 1],
               traversed_edges = [(0, 1), (0, 2)], index = 3, num_of_nodes = 3,
               num_of_traversed_edges = 2, traversed_nodes = [0, 1, 2]\<rparr>,
              \<lparr>mst_cost = 6, tree_edges = [new_Edge 0 2 1, new_Edge 0 1 5]\<rparr>)"
    by code_simp
  from C6_deterministic_order [of 3 "[(0, 1, 5), (1, 2, 5), (0, 2, 1)]"] s m
  have "main_loop (?pf\<lparr>all_weights := ?ws\<rparr>) new_SpanningTree = main 3 [(0, 1, 5), (1, 2, 5), (0, 2, 1)]"
    by blast
  with sw s m run show ?thesis by simp
qed

text \<open>
  Claim C7, as stated, fails when the running total leaves the range of \<^verbatim>\<open>int\<close>. With
  three nodes and the edges (0,1,2147483647) and (1,2,1) both edges are accepted, and
  the second addition overflows: the tree holds weights whose sum is 2147483648, and
  the cost is -2147483648.
\<close>

theorem C7_counterexample:
  "main 3 [(0, 1, 2147483647), (1, 2, 1)]
     = Inr (\<lparr>all_weights = [(1, 1), (2147483647, 0)],
            all_edges = [new_Edge 0 1 2147483647, new_Edge 1 2 1],
            traversed_edges = [(0, 1), (0, 2), (1, 2)], index = 2, num_of_nodes = 3,
            num_of_traversed_edges = 2, traversed_nodes = [0, 1, 2]\<rparr>,
          \<lparr>mst_cost = - 2147483648, tree_edges = [new_Edge 1 2 1, new_Edge 0 1 2147483647]\<rparr>)
   \<and> sum_list (map weight [new_Edge 1 2 1, new_Edge 0 1 2147483647]) = 2147483648"
  by code_simp

text \<open>
  Claim C7, amended to the runs in which no addition to the running total overflows.
  \<^verbatim>\<open>add_edge\<close> appends the edge and, unless the addition overflows, adds its weight to
  \<^verbatim>\<open>mst_cost\<close> once. So at every point of a run (after any number \<open>k\<close> of calls of
  \<^verbatim>\<open>traverse\<close> in the loop of \<^verbatim>\<open>main\<close>, and at its end) at which no addition has
  overflowed so far, \<^verbatim>\<open>mst_cost\<close> is the sum of the weights of the edges that the tree
  holds, each counted as often as the tree holds it.
\<close>

theorem C7_cost_is_sum:
  "tree_edges (add_edge edge mst) = tree_edges mst @ [edge]
   \<and> (in_int_range (mst_cost mst + weight edge) \<longrightarrow>
        mst_cost (add_edge edge mst) = mst_cost mst + weight edge)
   \<and> (main_steps k (sort_edges (parse_input nodes triples new_PathFinder)) new_SpanningTree
         = Inr (pf, tree)
       \<and> no_overflow (map weight (tree_edges tree))
       \<longrightarrow> mst_cost tree = sum_list (map weight (tree_edges tree)))
   \<and> (main nodes triples = Inr (pf', tree') \<and> no_overflow (map weight (tree_edges tree'))
       \<longrightarrow> mst_cost tree' = sum_list (map weight (tree_edges tree')))"
proof -
  have new: "cost_ok new_SpanningTree"
    by (simp add: cost_ok_def new_SpanningTree_def int_wrap_def)
  have "main_steps k (sort_edges (parse_input nodes triples new_PathFinder)) new_SpanningTree
          = Inr (pf, tree) \<longrightarrow> cost_ok tree"
    using main_steps_cost_ok [OF _ new] by blast
  moreover have "main nodes triples = Inr (pf', tree') \<longrightarrow> cost_ok tree'"
    unfolding main_def using main_loop_cost_ok [OF _ new] by blast
  ultimately show ?thesis
    using cost_ok_sum by (auto simp: add_edge_def int_wrap_in_range)
qed

theorem C7_witness:
  "in_int_range (mst_cost new_SpanningTree + weight (new_Edge 0 1 1))
   \<and> mst_cost (add_edge (new_Edge 0 1 1) new_SpanningTree) = 1
   \<and> main_steps 2 (sort_edges (parse_input 4 [(0, 1, 1), (1, 2, 2), (2, 3, 3), (0, 3, 4)] new_PathFinder))
       new_SpanningTree
     = Inr (\<lparr>all_weights = [(1, 0), (2, 1), (3, 2), (4, 3)],
            all_edges = [new_Edge 0 1 1, new_Edge 1 2 2, new_Edge 2 3 3, new_Edge 0 3 4],
            traversed_edges = [(0, 1), (0, 2), (1, 2)],
            index = 4, num_of_nodes = 4, num_of_traversed_edges = 2,
            traversed_nodes = [0, 1, 2]\<rparr>,
          \<lparr>mst_cost = 3, tree_edges = [new_Edge 0 1 1, new_Edge 1 2 2]\<rparr>)
   \<and> no_overflow (map weight [new_Edge 0 1 1, new_Edge 1 2 2])
   \<and> mst_cost \<lparr>mst_cost = 3, tree_edges = [new_Edge 0 1 1, new_Edge 1 2 2]\<rparr>
     = sum_list (map weight (tree_edges \<lparr>mst_cost = 3, tree_edges = [new_Edge 0 1 1, new_Edge 1 2 2]\<rparr>))
   \<and> main 4 [(0, 1, 1), (1, 2, 2), (2, 3, 3), (0, 3, 4)]
     = Inr (\<lparr>all_weights = [(1, 0), (2, 1), (3, 2), (4, 3)],
            all_edges = [new_Edge 0 1 1, new_Edge 1 2 2, new_Edge 2 3 3, new_Edge 0 3 4],
            traversed_edges = [(0, 1), (0, 2), (0, 3), (1, 2), (1, 3), (2, 3)],
            index = 4, num_of_nodes = 4, num_of_traversed_edges = 3,
            traversed_nodes = [0, 1, 2, 3]\<rparr>,
          \<lparr>mst_cost = 6, tree_edges = [new_Edge 0 1 1, new_Edge 1 2 2, new_Edge 2 3 3]\<rparr>)
   \<and> no_overflow (map weight [new_Edge 0 1 1, new_Edge 1 2 2, new_Edge 2 3 3])
   \<and> mst_cost \<lparr>mst_cost = 6, tree_edges = [new_Edge 0 1 1, new_Edge 1 2 2, new_Edge 2 3 3]\<rparr>
     = sum_list (map weight [new_Edge 0 1 1, new_Edge 1 2 2, new_Edge 2 3 3])"
proof -
  let ?triples = "[(0, 1, 1), (1, 2, 2), (2, 3, 3), (0 :: int, 3 :: int, 4 :: int)]"
  let ?pf2 = "\<lparr>all_weights = [(1, 0), (2, 1), (3, 2), (4, 3)],
            all_edges = [new_Edge 0 1 1, new_Edge 1 2 2, new_Edge 2 3 3, new_Edge 0 3 4],
            traversed_edges = [(0, 1), (0, 2), (1, 2)],
            index = 4, num_of_nodes = 4, num_of_traversed_edges = 2,
            traversed_nodes = [0, 1, 2]\<rparr>"
  let ?t2 = "\<lparr>mst_cost = 3, tree_edges = [new_Edge 0 1 1, new_Edge 1 2 2]\<rparr>"
  let ?pf3 = "\<lparr>all_weights = [(1, 0), (2, 1), (3, 2), (4, 3)],
            all_edges = [new_Edge 0 1 1, new_Edge 1 2 2, new_Edge 2 3 3, new_Edge 0 3 4],
            traversed_edges = [(0, 1), (0, 2), (0, 3), (1, 2), (1, 3), (2, 3)],
            index = 4, num_of_nodes = 4, num_of_traversed_edges = 3,
            traversed_nodes = [0, 1, 2, 3]\<rparr>"
  let ?t3 = "\<lparr>mst_cost = 6, tree_edges = [new_Edge 0 1 1, new_Edge 1 2 2, new_Edge 2 3 3]\<rparr>"
  have r0: "in_int_range (mst_cost new_SpanningTree + weight (new_Edge 0 1 1))" by code_simp
  have steps: "main_steps 2 (sort_edges (parse_input 4 ?triples new_PathFinder)) new_SpanningTree
     = Inr (?pf2, ?t2)"
    by code_simp
  have run: "main 4 ?triples = Inr (?pf3, ?t3)" by code_simp
  have n2: "no_overflow (map weight (tree_edges ?t2))" by code_simp
  have n3: "no_overflow (map weight (tree_edges ?t3))" by code_simp
  from C7_cost_is_sum [of "new_Edge 0 1 1" new_SpanningTree 2 4 ?triples ?pf2 ?t2 ?pf3 ?t3]
    r0 steps run n2 n3
  have "mst_cost (add_edge (new_Edge 0 1 1) new_SpanningTree)
          = mst_cost new_SpanningTree + weight (new_Edge 0 1 1)"
    and "mst_cost ?t2 = sum_list (map weight (tree_edges ?t2))"
    and "mst_cost ?t3 = sum_list (map weight (tree_edges ?t3))"
    by blast+
  with r0 steps run n2 n3 show ?thesis
    by (simp add: new_SpanningTree_def new_Edge_def)
qed

text \<open>
  Claim C8, as stated, fails in its two particular cases. A loop edge \<open>(3,3,5)\<close> is its
  own reverse, so inserting it a second time is refused. And with \<open>(0,1,5)\<close> and
  \<open>(0,1,7)\<close> in the list, \<open>(1,0,7)\<close> is refused although its weight differs from that
  of \<open>(0,1,5)\<close>: what counts is whether \<open>(0,1,7)\<close> is in the list.
\<close>

theorem C8_counterexample:
  "new_Edge 3 3 5 \<in> set (all_edges (parse_input 4 [(3, 3, 5)] new_PathFinder))
   \<and> insert_new_edge 3 3 5 (parse_input 4 [(3, 3, 5)] new_PathFinder)
       = (True, parse_input 4 [(3, 3, 5)] new_PathFinder)
   \<and> new_Edge 0 1 5 \<in> set (all_edges (parse_input 4 [(0, 1, 5), (0, 1, 7)] new_PathFinder))
   \<and> insert_new_edge 1 0 7 (parse_input 4 [(0, 1, 5), (0, 1, 7)] new_PathFinder)
       = (True, parse_input 4 [(0, 1, 5), (0, 1, 7)] new_PathFinder)"
  by code_simp

text \<open>
  Claim C8, amended. \<^verbatim>\<open>insert_new_edge(s, d, w)\<close> is refused exactly when the edge
  \<open>(d, s, w)\<close> is in the edge list; a refused call changes nothing; any other call
  appends the edge \<open>(s, d, w)\<close> and the entry \<open>(w, index)\<close> and increments \<^verbatim>\<open>index\<close>, and
  changes nothing else. After any sequence of insertions, inserting an edge \<open>(s, d, w)\<close>
  with \<open>s \<noteq> d\<close> that is in the list a second time is not refused; and \<open>(d, s, w')\<close> is not
  refused when every edge from \<open>s\<close> to \<open>d\<close> in the list has a weight other than \<open>w'\<close>.
\<close>

theorem C8_insert_edge:
  "(fst (insert_new_edge s d w pf) \<longleftrightarrow> new_Edge d s w \<in> set (all_edges pf))
   \<and> (fst (insert_new_edge s d w pf) \<longrightarrow> snd (insert_new_edge s d w pf) = pf)
   \<and> (\<not> fst (insert_new_edge s d w pf) \<longrightarrow>
        snd (insert_new_edge s d w pf)
          = pf\<lparr>all_edges := all_edges pf @ [new_Edge s d w],
               all_weights := all_weights pf @ [(w, index pf)],
               index := index pf + 1\<rparr>)
   \<and> (s \<noteq> d \<and> new_Edge s d w \<in> set (all_edges (parse_input nodes triples new_PathFinder))
        \<longrightarrow> \<not> fst (insert_new_edge s d w (parse_input nodes triples new_PathFinder)))
   \<and> ((\<forall>e\<in>set (all_edges pf). source e = s \<and> destination e = d \<longrightarrow> weight e \<noteq> w')
        \<longrightarrow> \<not> fst (insert_new_edge d s w' pf))"
proof -
  have "s \<noteq> d \<and> new_Edge s d w \<in> set (all_edges (parse_input nodes triples new_PathFinder))
        \<longrightarrow> \<not> fst (insert_new_edge s d w (parse_input nodes triples new_PathFinder))"
    using no_reverse_parse_input [of nodes triples]
    by (auto simp: insert_rejected_iff no_reverse_def)
  moreover have "(\<forall>e\<in>set (all_edges pf). source e = s \<and> destination e = d \<longrightarrow> weight e \<noteq> w')
        \<longrightarrow> \<not> fst (insert_new_edge d s w' pf)"
    by (auto simp: insert_rejected_iff new_Edge_def)
  ultimately show ?thesis
    by (simp add: insert_rejected_iff) (simp add: insert_new_edge_def list_ex_iff Edge_eq_iff)
qed

theorem C8_witness:
  "new_Edge 0 1 5 \<in> set (all_edges (parse_input 4 [(0, 1, 5)] new_PathFinder))
   \<and> fst (insert_new_edge 1 0 5 (parse_input 4 [(0, 1, 5)] new_PathFinder))
   \<and> snd (insert_new_edge 1 0 5 (parse_input 4 [(0, 1, 5)] new_PathFinder))
       = parse_input 4 [(0, 1, 5)] new_PathFinder
   \<and> \<not> fst (insert_new_edge 0 1 5 (parse_input 4 [(0, 1, 5)] new_PathFinder))
   \<and> snd (insert_new_edge 0 1 5 (parse_input 4 [(0, 1, 5)] new_PathFinder))
       = (parse_input 4 [(0, 1, 5)] new_PathFinder)
           \<lparr>all_edges := [new_Edge 0 1 5, new_Edge 0 1 5],
            all_weights := [(5, 0), (5, 1)], index := 2\<rparr>
   \<and> \<not> fst (insert_new_edge 1 0 7 (parse_input 4 [(0, 1, 5)] new_PathFinder))"
proof -
  let ?pf = "parse_input 4 [(0, 1, 5)] new_PathFinder"
  have pf: "?pf = \<lparr>all_weights = [(5, 0)], all_edges = [new_Edge 0 1 5], traversed_edges = [],
     index = 1, num_of_nodes = 4, num_of_traversed_edges = 0, traversed_nodes = []\<rparr>"
    by code_simp
  have mem: "new_Edge 0 1 5 \<in> set (all_edges ?pf)" by (simp add: pf)
  have other: "\<forall>e\<in>set (all_edges ?pf). source e = 0 \<and> destination e = 1 \<longrightarrow> weight e \<noteq> 7"
    by (simp add: pf new_Edge_def)
  from C8_insert_edge [of 1 0 5 ?pf] mem
  have a: "fst (insert_new_edge 1 0 5 ?pf)" "snd (insert_new_edge 1 0 5 ?pf) = ?pf"
    by blast+
  have ne: "(0::int) \<noteq> 1" by simp
  from C8_insert_edge [of 0 1 5 ?pf 4 "[(0, 1, 5)]"] mem ne
  have b: "\<not> fst (insert_new_edge 0 1 5 ?pf)" by blast
  with C8_insert_edge [of 0 1 5 ?pf]
  have c: "snd (insert_new_edge 0 1 5 ?pf)
             = ?pf\<lparr>all_edges := all_edges ?pf @ [new_Edge 0 1 5],
                   all_weights := all_weights ?pf @ [(5, index ?pf)], index := index ?pf + 1\<rparr>"
    by blast
  from C8_insert_edge [of 0 1 _ ?pf _ _ 7] other
  have d: "\<not> fst (insert_new_edge 1 0 7 ?pf)" by blast
  from mem a b d show ?thesis by (simp add: c) (simp add: pf)
qed

text \<open>
  Claim C9. Let \<^verbatim>\<open>traverse\<close> pass over the entries \<open>pre\<close> (their pairs are recorded) and
  reach the entry \<open>item\<close>, whose pair is not recorded and would close a cycle, before the
  tree is complete. Then the call returns the edge \<open>(-1,-1,-1)\<close>; it removes \<open>item\<close> and
  no other entry from the weight index, and the entries behind it stay where they are;
  \<open>item\<close> is in the weight index at no later call; no other member of the
  \<^verbatim>\<open>PathFinder\<close> changes, and the loop of \<^verbatim>\<open>main\<close> goes on with the same tree. The weight
  index holds no entry twice (claim C10).
\<close>

theorem C9_cycle_rejection:
  assumes "all_weights pf = pre @ item # rest"
    and "distinct (all_weights pf)"
    and "\<forall>x\<in>set pre. entry_ok pf x \<and> is_edge_traversed pf (fst (entry_pair pf x)) (snd (entry_pair pf x))"
    and "entry_ok pf item"
    and "\<not> is_edge_traversed pf (fst (entry_pair pf item)) (snd (entry_pair pf item))"
    and "num_of_traversed_edges pf \<noteq> num_of_nodes pf - 1"
    and "check_cycle pf (fst (entry_pair pf item)) (snd (entry_pair pf item))"
  shows "traverse pf = Inr (Some (new_Edge (- 1) (- 1) (- 1)), pf\<lparr>all_weights := pre @ rest\<rparr>)
    \<and> item \<notin> set (pre @ rest)
    \<and> (\<forall>k pf'. traverse_n k (pf\<lparr>all_weights := pre @ rest\<rparr>) = Inr pf'
          \<longrightarrow> item \<notin> set (all_weights pf'))
    \<and> main_loop pf mst = main_loop (pf\<lparr>all_weights := pre @ rest\<rparr>) mst"
proof -
  let ?pf = "pf\<lparr>all_weights := pre @ rest\<rparr>"
  have pre: "\<forall>x\<in>set pre. skipped pf x"
    using assms(3,6) by (simp add: skipped_def is_edge_traversed_def)
  have ns: "\<not> skipped pf item"
    using assms(5) by (simp add: skipped_def is_edge_traversed_def)
  have pos: "length pre < length (all_weights pf)" using assms(1) by simp
  have "erase_remove (all_weights pf) (length pre)
          = Some (take (length pre) (all_weights pf) @ drop (Suc (length pre)) (all_weights pf))"
    by (rule erase_remove_distinct [OF assms(2) pos])
  then have er: "erase_remove (all_weights pf) (length pre) = Some (pre @ rest)"
    using assms(1) by simp
  have t: "traverse pf = Inr (Some (new_Edge (- 1) (- 1) (- 1)), ?pf)"
    using assms(4,6,7) er by (simp add: traverse_passes [OF assms(1) pre ns] stop_at_def)
  have gone: "item \<notin> set (pre @ rest)"
    using assms(1,2) by auto
  have later: "\<forall>k pf'. traverse_n k ?pf = Inr pf' \<longrightarrow> item \<notin> set (all_weights pf')"
  proof (intro allI impI)
    fix k pf' assume "traverse_n k ?pf = Inr pf'"
    from traverse_n_weights [OF this] gone show "item \<notin> set (all_weights pf')" by auto
  qed
  have "main_loop pf mst = main_loop ?pf mst"
    by (subst main_loop.simps) (simp add: t is_sentinel_new_Edge)
  with t gone later show ?thesis by blast
qed

theorem C9_witness:
  "traverse \<lparr>all_weights = [(1, 0), (2, 1), (3, 2), (4, 3)],
      all_edges = [new_Edge 0 1 1, new_Edge 2 1 2, new_Edge 0 2 3, new_Edge 2 3 4],
      traversed_edges = [(0, 1), (2, 1)], index = 4, num_of_nodes = 4,
      num_of_traversed_edges = 2, traversed_nodes = [0, 1, 2]\<rparr>
     = Inr (Some (new_Edge (- 1) (- 1) (- 1)),
        \<lparr>all_weights = [(1, 0), (2, 1), (4, 3)],
         all_edges = [new_Edge 0 1 1, new_Edge 2 1 2, new_Edge 0 2 3, new_Edge 2 3 4],
         traversed_edges = [(0, 1), (2, 1)], index = 4, num_of_nodes = 4,
         num_of_traversed_edges = 2, traversed_nodes = [0, 1, 2]\<rparr>)
   \<and> traverse_n 1 \<lparr>all_weights = [(1, 0), (2, 1), (4, 3)],
         all_edges = [new_Edge 0 1 1, new_Edge 2 1 2, new_Edge 0 2 3, new_Edge 2 3 4],
         traversed_edges = [(0, 1), (2, 1)], index = 4, num_of_nodes = 4,
         num_of_traversed_edges = 2, traversed_nodes = [0, 1, 2]\<rparr>
     = Inr \<lparr>all_weights = [(1, 0), (2, 1), (4, 3)],
         all_edges = [new_Edge 0 1 1, new_Edge 2 1 2, new_Edge 0 2 3, new_Edge 2 3 4],
         traversed_edges = [(0, 1), (2, 1), (2, 3)], index = 4, num_of_nodes = 4,
         num_of_traversed_edges = 3, traversed_nodes = [0, 1, 2, 3]\<rparr>
   \<and> (3, 2) \<notin> set (all_weights \<lparr>all_weights = [(1, 0), (2, 1), (4, 3)],
         all_edges = [new_Edge 0 1 1, new_Edge 2 1 2, new_Edge 0 2 3, new_Edge 2 3 4],
         traversed_edges = [(0, 1), (2, 1), (2, 3)], index = 4, num_of_nodes = 4,
         num_of_traversed_edges = 3, traversed_nodes = [0, 1, 2, 3]\<rparr>)"
proof -
  let ?pf = "\<lparr>all_weights = [(1, 0), (2, 1), (3, 2), (4, 3)],
      all_edges = [new_Edge 0 1 1, new_Edge 2 1 2, new_Edge 0 2 3, new_Edge 2 3 4],
      traversed_edges = [(0, 1), (2, 1)], index = 4, num_of_nodes = 4,
      num_of_traversed_edges = 2, traversed_nodes = [0, 1, 2]\<rparr>"
  let ?pf' = "\<lparr>all_weights = [(1, 0), (2, 1), (4, 3)],
         all_edges = [new_Edge 0 1 1, new_Edge 2 1 2, new_Edge 0 2 3, new_Edge 2 3 4],
         traversed_edges = [(0, 1), (2, 1)], index = 4, num_of_nodes = 4,
         num_of_traversed_edges = 2, traversed_nodes = [0, 1, 2]\<rparr>"
  let ?pf'' = "\<lparr>all_weights = [(1, 0), (2, 1), (4, 3)],
         all_edges = [new_Edge 0 1 1, new_Edge 2 1 2, new_Edge 0 2 3, new_Edge 2 3 4],
         traversed_edges = [(0, 1), (2, 1), (2, 3)], index = 4, num_of_nodes = 4,
         num_of_traversed_edges = 3, traversed_nodes = [0, 1, 2, 3]\<rparr>"
  have 1: "all_weights ?pf = [(1, 0), (2, 1)] @ (3, 2) # [(4, 3)]" by simp
  have 2: "distinct (all_weights ?pf)" by simp
  have 3: "\<forall>x\<in>set [(1, 0), (2, 1)]. entry_ok ?pf x
             \<and> is_edge_traversed ?pf (fst (entry_pair ?pf x)) (snd (entry_pair ?pf x))"
    by code_simp
  have 4: "entry_ok ?pf (3, 2)" by code_simp
  have 5: "\<not> is_edge_traversed ?pf (fst (entry_pair ?pf (3, 2))) (snd (entry_pair ?pf (3, 2)))"
    by code_simp
  have 6: "num_of_traversed_edges ?pf \<noteq> num_of_nodes ?pf - 1" by simp
  have 7: "check_cycle ?pf (fst (entry_pair ?pf (3, 2))) (snd (entry_pair ?pf (3, 2)))"
    by code_simp
  have upd: "?pf\<lparr>all_weights := [(1, 0), (2, 1)] @ [(4, 3)]\<rparr> = ?pf'" by simp
  have next_call: "traverse_n 1 ?pf' = Inr ?pf''" by code_simp
  from C9_cycle_rejection [OF 1 2 3 4 5 6 7]
  have "traverse ?pf = Inr (Some (new_Edge (- 1) (- 1) (- 1)), ?pf')"
    and "\<forall>k pf'. traverse_n k ?pf' = Inr pf' \<longrightarrow> (3, 2) \<notin> set (all_weights pf')"
    unfolding upd by blast+
  with next_call show ?thesis by blast
qed

text \<open>
  Claim C10. After any sequence of \<^verbatim>\<open>insert_new_edge\<close> calls on a fresh \<^verbatim>\<open>PathFinder\<close>, the
  edge list and the weight index have the same length, which is \<^verbatim>\<open>index\<close>; the entry at
  position \<open>i\<close> is the weight of edge \<open>i\<close> paired with \<open>i\<close>, so the indices are in range
  and pairwise distinct. Hence neither \<^verbatim>\<open>print\<close> nor \<^verbatim>\<open>traverse\<close> reads \<^verbatim>\<open>all_edges\<close>
  out of range: not right after loading, not after sorting, and not after any number of
  calls of \<^verbatim>\<open>traverse\<close>.
\<close>

theorem C10_index_in_bounds:
  "length (all_weights (parse_input nodes triples new_PathFinder))
     = length (all_edges (parse_input nodes triples new_PathFinder))
   \<and> index (parse_input nodes triples new_PathFinder)
     = int (length (all_edges (parse_input nodes triples new_PathFinder)))
   \<and> (\<forall>i < length (all_edges (parse_input nodes triples new_PathFinder)).
        all_weights (parse_input nodes triples new_PathFinder) ! i
          = (weight (all_edges (parse_input nodes triples new_PathFinder) ! i), int i))
   \<and> distinct (map snd (all_weights (parse_input nodes triples new_PathFinder)))
   \<and> (\<forall>item \<in> set (all_weights (parse_input nodes triples new_PathFinder)).
        0 \<le> snd item
        \<and> snd item < int (length (all_edges (parse_input nodes triples new_PathFinder))))
   \<and> print (parse_input nodes triples new_PathFinder) \<noteq> Inl IndexOutOfRange
   \<and> print (sort_edges (parse_input nodes triples new_PathFinder)) \<noteq> Inl IndexOutOfRange
   \<and> (\<forall>k. traverse_n k (sort_edges (parse_input nodes triples new_PathFinder))
          \<noteq> Inl IndexOutOfRange)
   \<and> (\<forall>k pf. traverse_n k (sort_edges (parse_input nodes triples new_PathFinder)) = Inr pf
          \<longrightarrow> print pf \<noteq> Inl IndexOutOfRange \<and> traverse pf \<noteq> Inl IndexOutOfRange)"
proof -
  let ?pf = "parse_input nodes triples new_PathFinder"
  let ?n = "length (all_edges ?pf)"
  have al: "aligned ?pf" by (rule aligned_parse_input)
  then have ws: "all_weights ?pf = map (\<lambda>i. (weight (all_edges ?pf ! i), int i)) [0..<?n]"
    and ix: "index ?pf = int ?n"
    by (simp_all add: aligned_def)
  have ok: "index_ok ?pf" by (rule aligned_index_ok [OF al])
  have sok: "index_ok (sort_edges ?pf)" by (rule index_ok_sort_edges [OF ok])
  have len: "length (all_weights ?pf) = ?n" by (subst ws) simp
  have nth: "\<forall>i < ?n. all_weights ?pf ! i = (weight (all_edges ?pf ! i), int i)"
    by (subst ws) simp
  have "map snd (all_weights ?pf) = map int [0..<?n]" by (subst ws) (simp add: comp_def)
  then have dist: "distinct (map snd (all_weights ?pf))" by (simp add: distinct_map)
  have rng: "\<forall>item \<in> set (all_weights ?pf). 0 \<le> snd item \<and> snd item < int ?n"
    using ok by (simp add: index_ok_def list_all_iff entry_ok_def)
  have later: "\<forall>k pf. traverse_n k (sort_edges ?pf) = Inr pf
          \<longrightarrow> print pf \<noteq> Inl IndexOutOfRange \<and> traverse pf \<noteq> Inl IndexOutOfRange"
    using sok by (blast dest: traverse_n_index_ok print_in_range traverse_in_range(1))
  show ?thesis
    using len ix nth dist rng print_in_range [OF ok] print_in_range [OF sok]
      traverse_n_in_range [OF sok] later
    by blast
qed

theorem C10_witness:
  "length (all_weights (parse_input 4 [(0, 1, 1), (2, 3, 2), (1, 0, 1)] new_PathFinder)) = 2
   \<and> all_weights (parse_input 4 [(0, 1, 1), (2, 3, 2), (1, 0, 1)] new_PathFinder) ! 1 = (2, 1)
   \<and> snd ((2, 1) :: int \<times> int) < int (length (all_edges (parse_input 4 [(0, 1, 1), (2, 3, 2), (1, 0, 1)] new_PathFinder)))
   \<and> traverse_n 2 (sort_edges (parse_input 4 [(0, 1, 1), (2, 3, 2), (1, 0, 1)] new_PathFinder))
       = Inr \<lparr>all_weights = [(1, 0), (2, 1)], all_edges = [new_Edge 0 1 1, new_Edge 2 3 2],
               traversed_edges = [(0, 1), (2, 3)], index = 2, num_of_nodes = 4,
               num_of_traversed_edges = 2, traversed_nodes = [0, 1, 2, 3]\<rparr>
   \<and> traverse \<lparr>all_weights = [(1, 0), (2, 1)], all_edges = [new_Edge 0 1 1, new_Edge 2 3 2],
               traversed_edges = [(0, 1), (2, 3)], index = 2, num_of_nodes = 4,
               num_of_traversed_edges = 2, traversed_nodes = [0, 1, 2, 3]\<rparr> \<noteq> Inl IndexOutOfRange"
proof -
  let ?pf = "parse_input 4 [(0, 1, 1), (2, 3, 2), (1, 0, 1)] new_PathFinder"
  let ?end = "\<lparr>all_weights = [(1, 0), (2, 1)], all_edges = [new_Edge 0 1 1, new_Edge 2 3 2],
               traversed_edges = [(0, 1), (2, 3)], index = 2, num_of_nodes = 4,
               num_of_traversed_edges = 2, traversed_nodes = [0, 1, 2, 3]\<rparr>"
  have ws: "all_weights ?pf = [(1, 0), (2, 1)]" by code_simp
  have n: "traverse_n 2 (sort_edges ?pf) = Inr ?end" by code_simp
  have len: "length (all_edges ?pf) = 2" by code_simp
  from C10_index_in_bounds [of 4 "[(0, 1, 1), (2, 3, 2), (1, 0, 1)]"]
  have "traverse ?end \<noteq> Inl IndexOutOfRange" using n by blast
  with ws n len show ?thesis by simp
qed

end
